theory Spec2Isabelle
  imports Complex_Main "HOL-Library.Word" "HOL-Library.AList" "HOL-Library.Multiset"
begin

section \<open>Data model\<close>

text \<open>
  The batch coprocessor dispatch core of \<^verbatim>\<open>store/copr/batch_coprocessor.go\<close> and the
  request sender of \<^verbatim>\<open>store/tikv/batch_request_sender.go\<close>.

  Go's \<^verbatim>\<open>uint64\<close> store identifiers are 64-bit words; Go's \<^verbatim>\<open>int\<close> counters are
  integers (they count regions, far below the machine bound).
\<close>

type_synonym uint64 = "64 word"

text \<open>\<^verbatim>\<open>tikv.RegionVerID\<close>: the versioned region identifier \<^verbatim>\<open>(id, confVer, ver)\<close>.\<close>

record RegionVerID =
  regionId :: uint64
  confVer :: uint64
  ver :: uint64

text \<open>
  \<^verbatim>\<open>tikv.RegionInfo\<close> (batch_request_sender.go, lines 28-33). \<^verbatim>\<open>Meta\<close> is a pointer to
  region metadata that the dispatch core only forwards; it is an opaque handle here.
\<close>

record RegionInfo =
  Region :: RegionVerID
  Meta :: nat
  Ranges :: "(string \<times> string) list"
  AllStores :: "uint64 list"

text \<open>\<^verbatim>\<open>tikv.RPCContext\<close>: the fields the core reads (\<^verbatim>\<open>Addr\<close>, \<^verbatim>\<open>Meta\<close>, \<^verbatim>\<open>Peer\<close>, \<^verbatim>\<open>Store\<close>).\<close>

record RPCContext =
  Addr :: string
  CtxMeta :: nat
  Peer :: nat
  Store :: uint64

text \<open>\<^verbatim>\<open>tikvrpc.CmdType\<close>: the batch coprocessor command, or another one by its number.\<close>

datatype CmdType = CmdBatchCop | CmdOther nat

text \<open>
  \<^verbatim>\<open>batchCopTask\<close> (batch_coprocessor.go, lines 39-45). \<^verbatim>\<open>ctx\<close> is a pointer and may be
  nil.
\<close>

record batchCopTask =
  storeAddr :: string
  cmdType :: CmdType
  ctx :: "RPCContext option"
  regionInfos :: "RegionInfo list"

text \<open>
  A Go run-time panic: an index out of range, a nil pointer dereference, or the close of
  a closed channel.
\<close>

datatype panic = IndexOutOfRange | NilDereference | CloseOfClosedChannel

section \<open>The run-time environment of the balancer\<close>

text \<open>
  Three things the balancer uses are not fixed by its source text and are parameters of
  the model:
  \<^item> \<^verbatim>\<open>RegionVerID.String()\<close>, the key of the candidate maps (its code is in another
    file of the package);
  \<^item> the \<^verbatim>\<open>float64\<close> arithmetic of the load estimate: conversion from \<^verbatim>\<open>int\<close>,
    division, addition, the comparisons \<^verbatim>\<open><\<close>, \<^verbatim>\<open><=\<close> and \<^verbatim>\<open>== 0\<close>;
  \<^item> the order in which a \<^verbatim>\<open>range\<close> statement visits a Go map, which the language
    leaves unspecified and which may differ from one \<^verbatim>\<open>range\<close> statement to the next:
    \<open>rangeOrder rt n\<close> is a sequence of choices that fixes the order of the \<open>n\<close>-th
    \<^verbatim>\<open>range\<close> statement executed.
  The theorems about the balancer are stated for an arbitrary such environment.
\<close>

record 'f runtime =
  String_of :: "RegionVerID \<Rightarrow> string"
  float64 :: "int \<Rightarrow> 'f"
  fdiv :: "'f \<Rightarrow> 'f \<Rightarrow> 'f"
  fadd :: "'f \<Rightarrow> 'f \<Rightarrow> 'f"
  flt :: "'f \<Rightarrow> 'f \<Rightarrow> bool"
  fle :: "'f \<Rightarrow> 'f \<Rightarrow> bool"
  fzero :: "'f \<Rightarrow> bool"
  rangeOrder :: "nat \<Rightarrow> nat list"

text \<open>
  A Go map is an association list with distinct keys (\<open>AList.update\<close> writes a key,
  \<open>AList.delete\<close> removes it, \<open>map_of\<close> reads it). \<open>permute cs xs\<close> is the order in which
  a \<^verbatim>\<open>range\<close> statement with choice sequence \<open>cs\<close> visits the entries \<open>xs\<close>: it takes
  the entry at position \<open>c mod length xs\<close> first and goes on with the rest. Every
  permutation of \<open>xs\<close> is \<open>permute cs xs\<close> for some \<open>cs\<close>.
\<close>

fun permute :: "nat list \<Rightarrow> 'a list \<Rightarrow> 'a list" where
  "permute cs [] = []"
| "permute [] (x # xs) = x # xs"
| "permute (c # cs) (x # xs) =
     (let i = c mod length (x # xs)
      in (x # xs) ! i # permute cs (take i (x # xs) @ drop (Suc i) (x # xs)))"

section \<open>The task balancer\<close>

text \<open>\<^verbatim>\<open>math.MaxUint64\<close>, the "no store" value of \<^verbatim>\<open>findNextStore\<close>.\<close>

definition MaxUint64 :: uint64 where
  "MaxUint64 = - 1"

text \<open>
  The local variables of \<^verbatim>\<open>balanceBatchCopTask\<close> (lines 103-106, 159, 184) and the
  counter of \<^verbatim>\<open>range\<close> statements executed over a map.
\<close>

record 'f balance_state =
  storeTaskMap :: "(uint64 \<times> batchCopTask) list"
  storeCandidateTaskMap :: "(uint64 \<times> (string \<times> RegionInfo) list) list"
  totalCandidateStoreNum :: int
  totalCandidateCopTaskNum :: int
  avgStorePerTask :: 'f
  store :: uint64
  possibleTaskNum :: 'f
  rangeCount :: nat

text \<open>
  How a loop body ends: it goes on with a new state, the function returns its argument
  \<^verbatim>\<open>originalTasks\<close>, or the program panics.
\<close>

datatype 'a flow = Continue 'a | ReturnOriginal | Panic panic

text \<open>
  Lines 107-114: one task per primary store, holding the pinned first region of the
  draft. \<^verbatim>\<open>task.regionInfos[0]\<close> and \<^verbatim>\<open>AllStores[0]\<close> panic on an empty slice. The new
  task copies \<^verbatim>\<open>storeAddr\<close> and \<^verbatim>\<open>cmdType\<close>; its \<^verbatim>\<open>ctx\<close> is left at the zero value.
\<close>

fun initStoreTaskMap ::
  "batchCopTask list \<Rightarrow> (uint64 \<times> batchCopTask) list \<Rightarrow> panic + (uint64 \<times> batchCopTask) list"
where
  "initStoreTaskMap [] m = Inr m"
| "initStoreTaskMap (task # rest) m =
     (case regionInfos task of
        [] \<Rightarrow> Inl IndexOutOfRange
      | r0 # _ \<Rightarrow>
          (case AllStores r0 of
             [] \<Rightarrow> Inl IndexOutOfRange
           | s0 # _ \<Rightarrow>
               initStoreTaskMap rest
                 (AList.update s0
                    \<lparr>storeAddr = storeAddr task, cmdType = cmdType task, ctx = None,
                     regionInfos = [r0]\<rparr> m)))"

text \<open>Lines 119-131: the number of valid stores of a region, as the code counts it.\<close>

definition validStoreNum :: "(uint64 \<times> batchCopTask) list \<Rightarrow> RegionInfo \<Rightarrow> int" where
  "validStoreNum stm ri =
     (if length (AllStores ri) \<le> 1 then 1
      else int (length (filter (\<lambda>storeID. map_of stm storeID \<noteq> None) (AllStores ri))))"

text \<open>
  Lines 142-154: put the region under \<open>taskKey\<close> into the candidate map of every store of
  \<^verbatim>\<open>ri.AllStores\<close>; \<open>None\<close> when the key is already there (the function then returns
  \<^verbatim>\<open>originalTasks\<close>).
\<close>

fun putCandidate ::
  "string \<Rightarrow> RegionInfo \<Rightarrow> uint64 list \<Rightarrow> (uint64 \<times> (string \<times> RegionInfo) list) list
   \<Rightarrow> (uint64 \<times> (string \<times> RegionInfo) list) list option"
where
  "putCandidate taskKey ri [] c = Some c"
| "putCandidate taskKey ri (storeID # rest) c =
     (case map_of c storeID of
        Some candidateMap \<Rightarrow>
          (if map_of candidateMap taskKey \<noteq> None then None
           else putCandidate taskKey ri rest
                  (AList.update storeID (AList.update taskKey ri candidateMap) c))
      | None \<Rightarrow> putCandidate taskKey ri rest (AList.update storeID [(taskKey, ri)] c))"

text \<open>
  Lines 118-155: the body of the inner loop for a region that is not the first of its
  task (the first one is skipped by \<^verbatim>\<open>continue\<close>).
\<close>

definition scanRegion ::
  "'f runtime \<Rightarrow> uint64 \<Rightarrow> 'f balance_state \<Rightarrow> RegionInfo \<Rightarrow> 'f balance_state flow"
where
  "scanRegion rt taskStoreID st ri =
     (if validStoreNum (storeTaskMap st) ri = 1 then
        (case map_of (storeTaskMap st) taskStoreID of
           None \<Rightarrow> Panic NilDereference
         | Some t \<Rightarrow>
             Continue (st\<lparr>storeTaskMap :=
               AList.update taskStoreID (t\<lparr>regionInfos := regionInfos t @ [ri]\<rparr>)
                 (storeTaskMap st)\<rparr>))
      else
        (case putCandidate (String_of rt (Region ri)) ri (AllStores ri)
                (storeCandidateTaskMap st) of
           None \<Rightarrow> ReturnOriginal
         | Some c \<Rightarrow>
             Continue (st\<lparr>storeCandidateTaskMap := c,
               totalCandidateStoreNum :=
                 totalCandidateStoreNum st + validStoreNum (storeTaskMap st) ri,
               totalCandidateCopTaskNum := totalCandidateCopTaskNum st + 1\<rparr>)))"

text \<open>Lines 117-156: the inner loop, with the index of the region in its task.\<close>

fun scanRegions ::
  "'f runtime \<Rightarrow> uint64 \<Rightarrow> nat \<Rightarrow> RegionInfo list \<Rightarrow> 'f balance_state \<Rightarrow> 'f balance_state flow"
where
  "scanRegions rt taskStoreID index [] st = Continue st"
| "scanRegions rt taskStoreID index (ri # rest) st =
     (if index = 0 then scanRegions rt taskStoreID (Suc index) rest st
      else
        (case scanRegion rt taskStoreID st ri of
           Continue st' \<Rightarrow> scanRegions rt taskStoreID (Suc index) rest st'
         | ReturnOriginal \<Rightarrow> ReturnOriginal
         | Panic p \<Rightarrow> Panic p))"

text \<open>Lines 115-157: the loop over the draft tasks.\<close>

fun scanTasks :: "'f runtime \<Rightarrow> batchCopTask list \<Rightarrow> 'f balance_state \<Rightarrow> 'f balance_state flow"
where
  "scanTasks rt [] st = Continue st"
| "scanTasks rt (task # rest) st =
     (case regionInfos task of
        [] \<Rightarrow> Panic IndexOutOfRange
      | r0 # _ \<Rightarrow>
          (case AllStores r0 of
             [] \<Rightarrow> Panic IndexOutOfRange
           | taskStoreID # _ \<Rightarrow>
               (case scanRegions rt taskStoreID 0 (regionInfos task) st of
                  Continue st' \<Rightarrow> scanTasks rt rest st'
                | ReturnOriginal \<Rightarrow> ReturnOriginal
                | Panic p \<Rightarrow> Panic p)))"

text \<open>\<^verbatim>\<open>len(storeCandidateTaskMap[storeID])\<close>: a missing key reads as the nil map.\<close>

definition candLen :: "(uint64 \<times> (string \<times> RegionInfo) list) list \<Rightarrow> uint64 \<Rightarrow> nat" where
  "candLen c storeID = (case map_of c storeID of None \<Rightarrow> 0 | Some m \<Rightarrow> length m)"

text \<open>
  The load estimate
  \<^verbatim>\<open>float64(len(storeCandidateTaskMap[id]))/avgStorePerTask + float64(len(task.regionInfos))\<close>
  of lines 166, 199, 202 and 204.
\<close>

definition projected :: "'f runtime \<Rightarrow> 'f balance_state \<Rightarrow> uint64 \<Rightarrow> batchCopTask \<Rightarrow> 'f" where
  "projected rt st storeID t =
     fadd rt (fdiv rt (float64 rt (int (candLen (storeCandidateTaskMap st) storeID)))
                (avgStorePerTask st))
       (float64 rt (int (length (regionInfos t))))"

text \<open>
  Lines 160-180: \<^verbatim>\<open>findNextStore\<close>, a loop over the entries of \<^verbatim>\<open>storeTaskMap\<close> in the
  order of this \<^verbatim>\<open>range\<close> statement, with the local variables \<^verbatim>\<open>store\<close> and
  \<^verbatim>\<open>possibleTaskNum\<close>.
\<close>

fun findNextStoreLoop ::
  "'f runtime \<Rightarrow> 'f balance_state \<Rightarrow> (uint64 \<times> batchCopTask) list \<Rightarrow> uint64 \<times> 'f \<Rightarrow> uint64 \<times> 'f"
where
  "findNextStoreLoop rt st [] sp = sp"
| "findNextStoreLoop rt st ((storeID, t) # rest) (s, p) =
     (if s = MaxUint64 \<and> candLen (storeCandidateTaskMap st) storeID > 0 then
        findNextStoreLoop rt st rest (storeID, projected rt st storeID t)
      else
        (let num = fdiv rt (float64 rt (int (candLen (storeCandidateTaskMap st) storeID)))
                     (avgStorePerTask st)
         in if fzero rt num then findNextStoreLoop rt st rest (s, p)
            else
              (let num' = fadd rt num (float64 rt (int (length (regionInfos t))))
               in if flt rt num' p then findNextStoreLoop rt st rest (storeID, num')
                  else findNextStoreLoop rt st rest (s, p))))"

definition findNextStore :: "'f runtime \<Rightarrow> 'f balance_state \<Rightarrow> 'f balance_state" where
  "findNextStore rt st =
     (let (s, p) = findNextStoreLoop rt st
                     (permute (rangeOrder rt (rangeCount st)) (storeTaskMap st))
                     (MaxUint64, float64 rt 0)
      in st\<lparr>store := s, possibleTaskNum := p, rangeCount := Suc (rangeCount st)\<rparr>)"

text \<open>
  Lines 192-197: delete the chosen key from the candidate map of every store of the
  region that has one, and count each deletion.
\<close>

fun removeCandidate :: "string \<Rightarrow> uint64 list \<Rightarrow> 'f balance_state \<Rightarrow> 'f balance_state" where
  "removeCandidate key [] st = st"
| "removeCandidate key (sid # rest) st =
     (case map_of (storeCandidateTaskMap st) sid of
        Some m \<Rightarrow>
          removeCandidate key rest
            (st\<lparr>storeCandidateTaskMap :=
                  AList.update sid (AList.delete key m) (storeCandidateTaskMap st),
                totalCandidateStoreNum := totalCandidateStoreNum st - 1\<rparr>)
      | None \<Rightarrow> removeCandidate key rest st)"

text \<open>
  Lines 201-206: move on to another store of the region when its load estimate is not
  larger. \<^verbatim>\<open>storeTaskMap[sid].regionInfos\<close> dereferences a nil pointer when the store has no
  task; Go's \<^verbatim>\<open>&&\<close> evaluates it only when the two tests before it hold.
\<close>

fun switchStore :: "'f runtime \<Rightarrow> uint64 list \<Rightarrow> 'f balance_state \<Rightarrow> panic + 'f balance_state"
where
  "switchStore rt [] st = Inr st"
| "switchStore rt (sid # rest) st =
     (if sid \<noteq> store st \<and> candLen (storeCandidateTaskMap st) sid > 0 then
        (case map_of (storeTaskMap st) sid of
           None \<Rightarrow> Inl NilDereference
         | Some t \<Rightarrow>
             (if fle rt (projected rt st sid t) (possibleTaskNum st) then
                switchStore rt rest (st\<lparr>store := sid, possibleTaskNum := projected rt st sid t\<rparr>)
              else switchStore rt rest st))
      else switchStore rt rest st)"

text \<open>
  Lines 189-209: the body of \<^verbatim>\<open>for key, ri := range storeCandidateTaskMap[store]\<close>, which
  runs once for the first entry of the range order and then breaks.
\<close>

definition assignRegion ::
  "'f runtime \<Rightarrow> string \<Rightarrow> RegionInfo \<Rightarrow> 'f balance_state \<Rightarrow> panic + 'f balance_state"
where
  "assignRegion rt key ri st =
     (case map_of (storeTaskMap st) (store st) of
        None \<Rightarrow> Inl NilDereference
      | Some t \<Rightarrow>
          (let st1 = st\<lparr>storeTaskMap :=
                       AList.update (store st) (t\<lparr>regionInfos := regionInfos t @ [ri]\<rparr>)
                         (storeTaskMap st),
                     totalCandidateCopTaskNum := totalCandidateCopTaskNum st - 1\<rparr>;
               st2 = removeCandidate key (AllStores ri) st1
           in if totalCandidateCopTaskNum st2 > 0 then
                (let p = projected rt st2 (store st2) (t\<lparr>regionInfos := regionInfos t @ [ri]\<rparr>);
                     st3 = st2\<lparr>possibleTaskNum := p,
                              avgStorePerTask :=
                                fdiv rt (float64 rt (totalCandidateStoreNum st2))
                                  (float64 rt (totalCandidateCopTaskNum st2))\<rparr>
                 in switchStore rt (AllStores ri) st3)
              else Inr st2))"

text \<open>
  Lines 186-209: one iteration of the main loop. \<^verbatim>\<open>findNextStore\<close> is called when the
  current store has no candidate left; the \<^verbatim>\<open>range\<close> over the candidate map of the
  store (the empty map when the store has none) runs its body once, for the first entry
  of the range order, and breaks.
\<close>

definition balanceStep :: "'f runtime \<Rightarrow> 'f balance_state \<Rightarrow> panic + 'f balance_state" where
  "balanceStep rt st =
     (let st1 = (if candLen (storeCandidateTaskMap st) (store st) = 0
                 then findNextStore rt st else st);
          m = (case map_of (storeCandidateTaskMap st1) (store st1) of
                 None \<Rightarrow> [] | Some m \<Rightarrow> m)
      in case permute (rangeOrder rt (rangeCount st1)) m of
           [] \<Rightarrow> Inr (st1\<lparr>rangeCount := Suc (rangeCount st1)\<rparr>)
         | (key, ri) # _ \<Rightarrow> assignRegion rt key ri (st1\<lparr>rangeCount := Suc (rangeCount st1)\<rparr>))"

text \<open>
  Lines 185-210: the main loop \<^verbatim>\<open>for totalCandidateStoreNum > 0\<close>. It has no bound of
  its own, so the model counts its iterations down from \<open>fuel\<close>; \<open>None\<close> means that the
  loop is still running when the fuel is used up.
\<close>

fun balanceLoop :: "'f runtime \<Rightarrow> nat \<Rightarrow> 'f balance_state \<Rightarrow> (panic + 'f balance_state) option"
where
  "balanceLoop rt 0 st = (if totalCandidateStoreNum st > 0 then None else Some (Inr st))"
| "balanceLoop rt (Suc fuel) st =
     (if totalCandidateStoreNum st > 0 then
        (case balanceStep rt st of
           Inl p \<Rightarrow> Some (Inl p)
         | Inr st' \<Rightarrow> balanceLoop rt fuel st')
      else Some (Inr st))"

text \<open>
  \<^verbatim>\<open>balanceBatchCopTask\<close> (lines 102-217). The result is \<open>None\<close> when the main loop does
  not end within \<open>fuel\<close> iterations, \<open>Some (Inl p)\<close> when the function panics and
  \<open>Some (Inr tasks)\<close> when it returns \<open>tasks\<close>.
\<close>

definition balanceBatchCopTask ::
  "'f runtime \<Rightarrow> nat \<Rightarrow> batchCopTask list \<Rightarrow> (panic + batchCopTask list) option"
where
  "balanceBatchCopTask rt fuel originalTasks =
     (case initStoreTaskMap originalTasks [] of
        Inl p \<Rightarrow> Some (Inl p)
      | Inr stm \<Rightarrow>
          (case scanTasks rt originalTasks
                  \<lparr>storeTaskMap = stm, storeCandidateTaskMap = [],
                   totalCandidateStoreNum = 0, totalCandidateCopTaskNum = 0,
                   avgStorePerTask = float64 rt 0, store = MaxUint64,
                   possibleTaskNum = float64 rt 0, rangeCount = 0\<rparr> of
             Panic p \<Rightarrow> Some (Inl p)
           | ReturnOriginal \<Rightarrow> Some (Inr originalTasks)
           | Continue st \<Rightarrow>
               (let st0 = st\<lparr>avgStorePerTask :=
                              fdiv rt (float64 rt (totalCandidateStoreNum st))
                                (float64 rt (totalCandidateCopTaskNum st))\<rparr>
                in if totalCandidateStoreNum st0 = 0 then Some (Inr originalTasks)
                   else
                     (case balanceLoop rt fuel (findNextStore rt st0) of
                        None \<Rightarrow> None
                      | Some (Inl p) \<Rightarrow> Some (Inl p)
                      | Some (Inr st') \<Rightarrow>
                          Some (Inr (map snd
                            (permute (rangeOrder rt (rangeCount st')) (storeTaskMap st'))))))))"

section \<open>Errors, events and the environment of the dispatch core\<close>

text \<open>
  Go errors. \<^verbatim>\<open>errors.Trace\<close> adds a stack trace and keeps the cause; \<^verbatim>\<open>errors.Cause\<close>
  strips the traces. \<^verbatim>\<open>status.Code\<close> is the code of a gRPC status error and
  \<^verbatim>\<open>codes.Unknown\<close> for any other error.
\<close>

datatype error =
    ContextCanceled
  | EOF
  | GrpcStatus nat
  | ErrTiDBShuttingDown
  | ErrTiFlashServerTimeout
  | ErrQueryInterrupted
  | ErrorNew string
  | Trace error

fun Cause :: "error \<Rightarrow> error" where
  "Cause (Trace e) = Cause e"
| "Cause e = e"

definition codes_Canceled :: nat where
  "codes_Canceled = 1"

definition codes_Unknown :: nat where
  "codes_Unknown = 2"

definition status_Code :: "error \<Rightarrow> nat" where
  "status_Code e = (case e of GrpcStatus c \<Rightarrow> c | _ \<Rightarrow> codes_Unknown)"

text \<open>\<^verbatim>\<open>errors.Trace\<close> of a possibly nil error: nil stays nil.\<close>

definition TraceOpt :: "error option \<Rightarrow> error option" where
  "TraceOpt e = map_option Trace e"

text \<open>The backoff categories the core uses.\<close>

datatype BackoffType = BoRegionMiss | BoTiFlashRPC | BoTiKVRPC

text \<open>
  The calls the core makes to its collaborators (topology cache, backoffer, RPC
  transport, stream, channels), in the order it makes them: the trace of a run.
\<close>

datatype event =
    SplitKeyRanges "(string \<times> string) list"
  | GetTiFlashRPCContext RegionVerID
  | Backoff BackoffType
  | SetContext
  | SendRequest string
  | CancelRPC
  | SetRPCError error
  | OnSendFailForBatchRegions uint64 "RegionInfo list" bool error
  | Recv
  | StreamClose
  | CheckVisibility uint64
  | CloseFinishCh
  | CancelAll
  | WaitGroupWait
  | GoRun

text \<open>\<^verbatim>\<open>coprocessor.BatchResponse\<close>: the payload and the error string of the storage node.\<close>

record BatchResponse =
  Data :: string
  OtherError :: string

text \<open>
  \<^verbatim>\<open>tikvrpc.BatchCopStreamResponse\<close>: the first sub-response (nil when the stream ended
  before producing anything) and the stream. The stream is given by what \<^verbatim>\<open>Recv\<close> will
  return: the sub-responses still to come and the error that ends it (\<^verbatim>\<open>io.EOF\<close> at a
  normal end).
\<close>

record BatchCopStreamResponse =
  firstResponse :: "BatchResponse option"
  pending :: "BatchResponse list"
  final :: error

text \<open>The intermediate \<^verbatim>\<open>copTask\<close> of the planner: a region and its key ranges.\<close>

record copTask =
  region :: RegionVerID
  taskRanges :: "(string \<times> string) list"
  storeType :: nat

text \<open>
  The collaborators, as functions of the trace so far: what the topology cache, the
  backoffer, the transport and the process flags answer when the core calls them. The
  run-time environment of the balancer is part of it; \<open>planRangeOrder\<close> fixes the order
  of the \<^verbatim>\<open>range\<close> over the planner's map, \<open>selectSend\<close> which ready case a \<^verbatim>\<open>select\<close>
  between a send and the closed finish signal takes.
\<close>

record 'f env =
  runtime_of :: "'f runtime"
  planRangeOrder :: "event list \<Rightarrow> nat list"
  splitKeyRanges :: "event list \<Rightarrow> (string \<times> string) list \<Rightarrow> error + (RegionVerID \<times> (string \<times> string) list) list"
  getTiFlashRPCContext :: "event list \<Rightarrow> RegionVerID \<Rightarrow> error + RPCContext option"
  getAllValidTiFlashStores :: "event list \<Rightarrow> RegionVerID \<Rightarrow> uint64 \<Rightarrow> uint64 list"
  backoff :: "event list \<Rightarrow> BackoffType \<Rightarrow> error option"
  setContext :: "event list \<Rightarrow> error option"
  hasRPCCanceller :: bool
  sendRequest :: "event list \<Rightarrow> string \<Rightarrow> error + BatchCopStreamResponse"
  needReloadRegion :: "event list \<Rightarrow> bool"
  ShuttingDown :: "event list \<Rightarrow> 32 word"
  checkVisibility :: "event list \<Rightarrow> uint64 \<Rightarrow> error option"
  Killed :: "event list \<Rightarrow> 32 word"
  selectSend :: "event list \<Rightarrow> bool"

text \<open>What the planner yields: a value, a Go error, or a panic.\<close>

datatype 'a result = Ok 'a | Err error | Panicked panic

section \<open>The task planner\<close>

text \<open>The local variables of one pass of \<^verbatim>\<open>buildBatchCopTasks\<close> (lines 241-242) and the trace.\<close>

record plan_state =
  planTrace :: "event list"
  planStoreTaskMap :: "(string \<times> batchCopTask) list"
  needRetry :: bool

text \<open>
  Lines 243-269: resolve every task. An error of the cache ends the pass with that error;
  a nil \<^verbatim>\<open>RPCContext\<close> sets \<^verbatim>\<open>needRetry\<close> and goes on with the next task.
\<close>

fun resolveTasks :: "'f env \<Rightarrow> copTask list \<Rightarrow> plan_state \<Rightarrow> (error \<times> event list) + plan_state"
where
  "resolveTasks env [] st = Inr st"
| "resolveTasks env (task # rest) st =
     (let tr = planTrace st @ [GetTiFlashRPCContext (region task)]
      in case getTiFlashRPCContext env (planTrace st) (region task) of
           Inl err \<Rightarrow> Inl (Trace err, tr)
         | Inr None \<Rightarrow> resolveTasks env rest (st\<lparr>planTrace := tr, needRetry := True\<rparr>)
         | Inr (Some rpcCtx) \<Rightarrow>
             (let allStores = getAllValidTiFlashStores env tr (region task) (Store rpcCtx);
                  ri = \<lparr>Region = region task, Meta = CtxMeta rpcCtx, Ranges = taskRanges task,
                        AllStores = allStores\<rparr>
              in case map_of (planStoreTaskMap st) (Addr rpcCtx) of
                   Some batchCop \<Rightarrow>
                     resolveTasks env rest
                       (st\<lparr>planTrace := tr,
                           planStoreTaskMap :=
                             AList.update (Addr rpcCtx)
                               (batchCop\<lparr>regionInfos := regionInfos batchCop @ [ri]\<rparr>)
                               (planStoreTaskMap st)\<rparr>)
                 | None \<Rightarrow>
                     resolveTasks env rest
                       (st\<lparr>planTrace := tr,
                           planStoreTaskMap :=
                             AList.update (Addr rpcCtx)
                               \<lparr>storeAddr = Addr rpcCtx, cmdType = CmdBatchCop,
                                ctx = Some rpcCtx, regionInfos = [ri]\<rparr>
                               (planStoreTaskMap st)\<rparr>)))"

text \<open>
  Lines 224-234: \<^verbatim>\<open>appendTask\<close> makes one task for every pair (region, ranges) that
  \<^verbatim>\<open>SplitKeyRanges\<close> hands to it.
\<close>

definition copTasksOf :: "nat \<Rightarrow> (RegionVerID \<times> (string \<times> string) list) list \<Rightarrow> copTask list" where
  "copTasksOf storeTp locs =
     map (\<lambda>(r, rs). \<lparr>region = r, taskRanges = rs, storeType = storeTp\<rparr>) locs"

text \<open>
  \<^verbatim>\<open>buildBatchCopTasks\<close> (lines 219-293). The \<^verbatim>\<open>for\<close> loop has no bound, so the model
  counts its passes down from \<open>fuel\<close>, and \<open>None\<close> means that it is still running. Each
  pass splits the same \<open>ranges\<close>. The timing warning and the metric of lines 284-290 are
  left out.
\<close>

fun buildBatchCopTasks ::
  "'f env \<Rightarrow> nat \<Rightarrow> event list \<Rightarrow> (string \<times> string) list \<Rightarrow> nat
   \<Rightarrow> (batchCopTask list result \<times> event list) option"
where
  "buildBatchCopTasks env 0 tr ranges storeTp = None"
| "buildBatchCopTasks env (Suc fuel) tr ranges storeTp =
     (case splitKeyRanges env tr ranges of
        Inl err \<Rightarrow> Some (Err (Trace err), tr @ [SplitKeyRanges ranges])
      | Inr locs \<Rightarrow>
          (case resolveTasks env (copTasksOf storeTp locs)
                  \<lparr>planTrace = tr @ [SplitKeyRanges ranges], planStoreTaskMap = [],
                   needRetry = False\<rparr> of
             Inl (err, tr') \<Rightarrow> Some (Err err, tr')
           | Inr st \<Rightarrow>
               (if needRetry st then
                  (case backoff env (planTrace st) BoRegionMiss of
                     Some err \<Rightarrow> Some (Err (Trace err), planTrace st @ [Backoff BoRegionMiss])
                   | None \<Rightarrow>
                       buildBatchCopTasks env fuel (planTrace st @ [Backoff BoRegionMiss])
                         ranges storeTp)
                else
                  (case balanceBatchCopTask (runtime_of env) fuel
                          (map snd (permute (planRangeOrder env (planTrace st))
                                      (planStoreTaskMap st))) of
                     None \<Rightarrow> None
                   | Some (Inl p) \<Rightarrow> Some (Panicked p, planTrace st)
                   | Some (Inr batchTasks) \<Rightarrow> Some (Ok batchTasks, planTrace st)))))"

section \<open>The request sender\<close>

text \<open>The cancel handle \<^verbatim>\<open>SendReqToAddr\<close> returns: the no-op, or the canceller's.\<close>

datatype cancelFunc = NoopCancel | RPCCancel

text \<open>The results \<^verbatim>\<open>(resp, retry, cancel, err)\<close> of \<^verbatim>\<open>SendReqToAddr\<close>.\<close>

record sendResult =
  sendResp :: "BatchCopStreamResponse option"
  retry :: bool
  cancel :: cancelFunc
  sendErr :: "error option"

text \<open>\<^verbatim>\<open>onSendFailForBatchRegions\<close> (batch_request_sender.go, lines 76-88).\<close>

definition onSendFailForBatchRegions ::
  "'f env \<Rightarrow> event list \<Rightarrow> RPCContext \<Rightarrow> RegionInfo list \<Rightarrow> error \<Rightarrow> error option \<times> event list"
where
  "onSendFailForBatchRegions env tr rpcCtx regions err =
     (if Cause err = ContextCanceled \<or> status_Code (Cause err) = codes_Canceled then
        (Some (Trace err), tr)
      else if ShuttingDown env tr > 0 then (Some ErrTiDBShuttingDown, tr)
      else
        (let tr1 = tr @ [OnSendFailForBatchRegions (Store rpcCtx) regions
                           (needReloadRegion env tr) err]
         in (TraceOpt (backoff env tr1 BoTiFlashRPC), tr1 @ [Backoff BoTiFlashRPC])))"

text \<open>
  \<^verbatim>\<open>SendReqToAddr\<close> (batch_request_sender.go, lines 48-74). \<^verbatim>\<open>rpcCtx.Meta\<close> dereferences
  the context, which panics when it is nil. \<^verbatim>\<open>cancel()\<close> on the failure path is the
  canceller's only when the backoffer's context carries one. The request statistics of
  lines 60-62 are left out.
\<close>

definition SendReqToAddr ::
  "'f env \<Rightarrow> event list \<Rightarrow> RPCContext option \<Rightarrow> RegionInfo list
   \<Rightarrow> panic + (sendResult \<times> event list)"
where
  "SendReqToAddr env tr rpcCtx regions =
     (case rpcCtx of
        None \<Rightarrow> Inl NilDereference
      | Some c \<Rightarrow>
          (case setContext env tr of
             Some e \<Rightarrow>
               Inr (\<lparr>sendResp = None, retry = False, cancel = NoopCancel,
                     sendErr = Some (Trace e)\<rparr>, tr @ [SetContext])
           | None \<Rightarrow>
               (let tr1 = tr @ [SetContext];
                    cancel1 = (if hasRPCCanceller env then RPCCancel else NoopCancel)
                in case sendRequest env tr1 (Addr c) of
                     Inr r \<Rightarrow>
                       Inr (\<lparr>sendResp = Some r, retry = False, cancel = cancel1, sendErr = None\<rparr>,
                            tr1 @ [SendRequest (Addr c)])
                   | Inl err \<Rightarrow>
                       (let tr2 = tr1 @ [SendRequest (Addr c)]
                                    @ (if hasRPCCanceller env then [CancelRPC] else [])
                                    @ [SetRPCError err]
                        in case onSendFailForBatchRegions env tr2 c regions err of
                             (Some e, tr3) \<Rightarrow>
                               Inr (\<lparr>sendResp = None, retry = False, cancel = NoopCancel,
                                     sendErr = Some (Trace e)\<rparr>, tr3)
                           | (None, tr3) \<Rightarrow>
                               Inr (\<lparr>sendResp = None, retry = True, cancel = NoopCancel,
                                     sendErr = None\<rparr>, tr3)))))"

section \<open>The iterator and its workers\<close>

text \<open>\<^verbatim>\<open>CopRuntimeStats\<close>: the callee address; the backoff statistics are left out.\<close>

record CopRuntimeStats =
  CalleeAddress :: string

text \<open>\<^verbatim>\<open>batchCopResponse\<close> (lines 47-56); \<^verbatim>\<open>pbResp\<close>, \<^verbatim>\<open>detail\<close> and \<^verbatim>\<open>err\<close> may be nil.\<close>

record batchCopResponse =
  pbResp :: "BatchResponse option"
  detail :: "CopRuntimeStats option"
  startKey :: string
  err :: "error option"
  respSize :: int
  respTime :: int

text \<open>\<^verbatim>\<open>GetData\<close> (lines 59-61): \<^verbatim>\<open>rs.pbResp.Data\<close> panics when \<^verbatim>\<open>pbResp\<close> is nil.\<close>

definition GetData :: "batchCopResponse \<Rightarrow> panic + string" where
  "GetData rs = (case pbResp rs of None \<Rightarrow> Inl NilDereference | Some pb \<Rightarrow> Inr (Data pb))"

text \<open>The fields of \<^verbatim>\<open>kv.Request\<close> that the core reads.\<close>

record Request =
  KeepOrder :: bool
  Desc :: bool
  StartTs :: uint64
  KeyRanges :: "(string \<times> string) list"
  StoreType :: nat

text \<open>
  The mutable state of a \<^verbatim>\<open>batchCopIterator\<close> (lines 321-344) together with the trace:
  the responses in \<^verbatim>\<open>respChan\<close>, whether \<^verbatim>\<open>respChan\<close> and \<^verbatim>\<open>finishCh\<close> have been closed,
  and the \<^verbatim>\<open>closed\<close> flag.
\<close>

record world =
  trace :: "event list"
  respChan :: "batchCopResponse list"
  respChanClosed :: bool
  finishChClosed :: bool
  closed :: "32 word"

text \<open>
  The iterator as \<^verbatim>\<open>sendBatch\<close> makes it (lines 305-317): fresh channels, \<^verbatim>\<open>closed\<close> at
  its zero value, and \<^verbatim>\<open>run\<close> started.
\<close>

definition newIterator :: "event list \<Rightarrow> world" where
  "newIterator tr =
     \<lparr>trace = tr @ [GoRun], respChan = [], respChanClosed = False, finishChClosed = False,
      closed = 0\<rparr>"

text \<open>\<^verbatim>\<open>close(b.finishCh)\<close>: closing a closed channel panics.\<close>

definition closeFinishCh :: "world \<Rightarrow> panic + world" where
  "closeFinishCh w =
     (if finishChClosed w then Inl CloseOfClosedChannel
      else Inr (w\<lparr>finishChClosed := True, trace := trace w @ [CloseFinishCh]\<rparr>))"

text \<open>\<^verbatim>\<open>atomic.CompareAndSwapUint32(&b.closed, 0, 1)\<close>.\<close>

definition casClosed :: "world \<Rightarrow> bool \<times> world" where
  "casClosed w = (if closed w = 0 then (True, w\<lparr>closed := 1\<rparr>) else (False, w))"

text \<open>
  \<^verbatim>\<open>Close\<close> (lines 411-418). \<^verbatim>\<open>wg.Wait()\<close> returns when the workers are done; the model
  records the call.
\<close>

definition Close :: "world \<Rightarrow> panic + (error option \<times> world)" where
  "Close w =
     (case casClosed w of
        (True, w1) \<Rightarrow>
          (case closeFinishCh w1 of
             Inl p \<Rightarrow> Inl p
           | Inr w2 \<Rightarrow> Inr (None, w2\<lparr>trace := trace w2 @ [CancelAll, WaitGroupWait]\<rparr>))
      | (False, w1) \<Rightarrow> Inr (None, w1\<lparr>trace := trace w1 @ [CancelAll, WaitGroupWait]\<rparr>))"

text \<open>
  \<^verbatim>\<open>sendToRespCh\<close> (lines 554-561): the response is queued, or the closed finish signal
  is taken instead.
\<close>

definition sendToRespCh :: "'f env \<Rightarrow> world \<Rightarrow> batchCopResponse \<Rightarrow> bool \<times> world" where
  "sendToRespCh env w resp =
     (if finishChClosed w \<and> \<not> selectSend env (trace w) then (True, w)
      else (False, w\<lparr>respChan := respChan w @ [resp]\<rparr>))"

text \<open>
  \<^verbatim>\<open>handleBatchCopResponse\<close> (lines 523-552): a sub-response with an \<^verbatim>\<open>OtherError\<close> is an
  error of the task; any other is packaged with its statistics and sent to \<^verbatim>\<open>respChan\<close>.
\<close>

definition handleBatchCopResponse ::
  "'f env \<Rightarrow> world \<Rightarrow> BatchResponse \<Rightarrow> batchCopTask \<Rightarrow> error option \<times> world"
where
  "handleBatchCopResponse env w response task =
     (if OtherError response \<noteq> [] then
        (Some (Trace (ErrorNew (''other error: '' @ OtherError response))), w)
      else
        (None, snd (sendToRespCh env w
           \<lparr>pbResp = Some response, detail = Some \<lparr>CalleeAddress = storeAddr task\<rparr>,
            startKey = [], err = None, respSize = 0, respTime = 0\<rparr>)))"

text \<open>
  Lines 497-520: the loop of \<^verbatim>\<open>handleStreamedBatchCopResponse\<close>, on the sub-response in
  hand and what the stream still holds.
\<close>

fun streamLoop ::
  "'f env \<Rightarrow> world \<Rightarrow> BatchResponse \<Rightarrow> BatchResponse list \<Rightarrow> error \<Rightarrow> batchCopTask
   \<Rightarrow> error option \<times> world"
where
  "streamLoop env w resp [] fin task =
     (case handleBatchCopResponse env w resp task of
        (Some e, w1) \<Rightarrow> (Some (Trace e), w1)
      | (None, w1) \<Rightarrow>
          (let w2 = w1\<lparr>trace := trace w1 @ [Recv]\<rparr>
           in if Cause fin = EOF then (None, w2)
              else
                (case backoff env (trace w2) BoTiKVRPC of
                   Some err1 \<Rightarrow> (Some (Trace fin), w2\<lparr>trace := trace w2 @ [Backoff BoTiKVRPC]\<rparr>)
                 | None \<Rightarrow>
                     (Some ErrTiFlashServerTimeout,
                      w2\<lparr>trace := trace w2 @ [Backoff BoTiKVRPC]\<rparr>))))"
| "streamLoop env w resp (next # rest) fin task =
     (case handleBatchCopResponse env w resp task of
        (Some e, w1) \<Rightarrow> (Some (Trace e), w1)
      | (None, w1) \<Rightarrow> streamLoop env (w1\<lparr>trace := trace w1 @ [Recv]\<rparr>) next rest fin task)"

text \<open>
  \<^verbatim>\<open>handleStreamedBatchCopResponse\<close> (lines 490-521); \<^verbatim>\<open>response.Close()\<close> is deferred.
\<close>

definition handleStreamedBatchCopResponse ::
  "'f env \<Rightarrow> world \<Rightarrow> BatchCopStreamResponse \<Rightarrow> batchCopTask \<Rightarrow> error option \<times> world"
where
  "handleStreamedBatchCopResponse env w response task =
     (case (case firstResponse response of
              None \<Rightarrow> (None, w)
            | Some resp \<Rightarrow> streamLoop env w resp (pending response) (final response) task) of
        (e, w') \<Rightarrow> (e, w'\<lparr>trace := trace w' @ [StreamClose]\<rparr>))"

text \<open>
  \<^verbatim>\<open>handleTaskOnce\<close> with \<^verbatim>\<open>retryBatchCopTask\<close> (lines 435-488): send; on \<^verbatim>\<open>retry\<close> plan
  again over the merged ranges of the task's regions; on an error return it; otherwise
  drain the stream, and call the deferred \<^verbatim>\<open>cancel\<close>.
\<close>

definition handleTaskOnce ::
  "'f env \<Rightarrow> nat \<Rightarrow> Request \<Rightarrow> world \<Rightarrow> batchCopTask
   \<Rightarrow> ((panic + batchCopTask list \<times> error option) \<times> world) option"
where
  "handleTaskOnce env fuel req w task =
     (case SendReqToAddr env (trace w) (ctx task) (regionInfos task) of
        Inl p \<Rightarrow> Some (Inl p, w)
      | Inr (r, tr1) \<Rightarrow>
          (if retry r then
             (case buildBatchCopTasks env fuel tr1 (concat (map Ranges (regionInfos task)))
                     (StoreType req) of
                None \<Rightarrow> None
              | Some (Panicked p, tr2) \<Rightarrow> Some (Inl p, w\<lparr>trace := tr2\<rparr>)
              | Some (Err e, tr2) \<Rightarrow> Some (Inr ([], Some e), w\<lparr>trace := tr2\<rparr>)
              | Some (Ok tasks, tr2) \<Rightarrow> Some (Inr (tasks, None), w\<lparr>trace := tr2\<rparr>))
           else
             (case sendErr r of
                Some e \<Rightarrow> Some (Inr ([], Some (Trace e)), w\<lparr>trace := tr1\<rparr>)
              | None \<Rightarrow>
                  (case sendResp r of
                     None \<Rightarrow> Some (Inl NilDereference, w\<lparr>trace := tr1\<rparr>)
                   | Some response \<Rightarrow>
                       (case handleStreamedBatchCopResponse env (w\<lparr>trace := tr1\<rparr>) response task of
                          (e, w2) \<Rightarrow>
                            Some (Inr ([], e),
                              w2\<lparr>trace := trace w2
                                    @ (if cancel r = RPCCancel then [CancelRPC] else [])\<rparr>))))))"

text \<open>
  Lines 425-426: the response of a failed task, with the error and no payload, sent to
  \<^verbatim>\<open>respChan\<close>.
\<close>

definition reportTaskError :: "'f env \<Rightarrow> world \<Rightarrow> error \<Rightarrow> world" where
  "reportTaskError env w e =
     snd (sendToRespCh env w
       \<lparr>pbResp = None, detail = Some \<lparr>CalleeAddress = []\<rparr>, startKey = [], err = Some (Trace e),
        respSize = 0, respTime = 0\<rparr>)"

text \<open>
  \<^verbatim>\<open>handleTask\<close> (lines 420-432): the loop over the growing list of tasks, here over the
  tasks from index \<^verbatim>\<open>idx\<close> on. The list can grow for ever, so the loop has fuel.
\<close>

fun handleTaskLoop ::
  "'f env \<Rightarrow> nat \<Rightarrow> Request \<Rightarrow> world \<Rightarrow> batchCopTask list \<Rightarrow> (panic + world) option"
where
  "handleTaskLoop env fuel req w [] = Some (Inr w)"
| "handleTaskLoop env 0 req w (task # rest) = None"
| "handleTaskLoop env (Suc fuel) req w (task # rest) =
     (case handleTaskOnce env fuel req w task of
        None \<Rightarrow> None
      | Some (Inl p, w1) \<Rightarrow> Some (Inl p)
      | Some (Inr (ret, Some e), w1) \<Rightarrow> Some (Inr (reportTaskError env w1 e))
      | Some (Inr (ret, None), w1) \<Rightarrow> handleTaskLoop env fuel req w1 (rest @ ret))"

definition handleTask ::
  "'f env \<Rightarrow> nat \<Rightarrow> Request \<Rightarrow> world \<Rightarrow> batchCopTask \<Rightarrow> (panic + world) option"
where
  "handleTask env fuel req w task = handleTaskLoop env fuel req w [task]"

text \<open>
  \<^verbatim>\<open>recvFromRespCh\<close> (lines 383-408). The \<^verbatim>\<open>select\<close> takes one of its ready cases; the
  model is given the cases taken, one for each round of the loop. \<open>None\<close> means that the
  function has not returned: the cases given are used up, or the case named is not
  ready. The results are \<^verbatim>\<open>(resp, ok, exit)\<close>.
\<close>

datatype selectCase = RespChan | Ticker | FinishCh | CtxDone

fun recvFromRespCh ::
  "'f env \<Rightarrow> selectCase list \<Rightarrow> world
   \<Rightarrow> (panic + ((batchCopResponse option \<times> bool \<times> bool) \<times> world)) option"
where
  "recvFromRespCh env [] w = None"
| "recvFromRespCh env (RespChan # cs) w =
     (case respChan w of
        r # rest \<Rightarrow> Some (Inr ((Some r, True, False), w\<lparr>respChan := rest\<rparr>))
      | [] \<Rightarrow> if respChanClosed w then Some (Inr ((None, False, False), w)) else None)"
| "recvFromRespCh env (Ticker # cs) w =
     (if Killed env (trace w) = 1 then
        Some (Inr ((Some \<lparr>pbResp = None, detail = None, startKey = [],
                         err = Some ErrQueryInterrupted, respSize = 0, respTime = 0\<rparr>,
                    True, False), w))
      else recvFromRespCh env cs w)"
| "recvFromRespCh env (FinishCh # cs) w =
     (if finishChClosed w then Some (Inr ((None, False, True), w)) else None)"
| "recvFromRespCh env (CtxDone # cs) w =
     (case casClosed w of
        (True, w1) \<Rightarrow>
          (case closeFinishCh w1 of
             Inl p \<Rightarrow> Some (Inl p)
           | Inr w2 \<Rightarrow> Some (Inr ((None, False, True), w2)))
      | (False, w1) \<Rightarrow> Some (Inr ((None, False, True), w1)))"

text \<open>
  \<^verbatim>\<open>Next\<close> (lines 359-381): the result subset (nil at the end) and the error.
\<close>

definition Next ::
  "'f env \<Rightarrow> Request \<Rightarrow> selectCase list \<Rightarrow> world
   \<Rightarrow> (panic + ((batchCopResponse option \<times> error option) \<times> world)) option"
where
  "Next env req cs w =
     (case recvFromRespCh env cs w of
        None \<Rightarrow> None
      | Some (Inl p) \<Rightarrow> Some (Inl p)
      | Some (Inr ((resp, ok, exit), w1)) \<Rightarrow>
          (if \<not> ok \<or> exit then Some (Inr ((None, None), w1))
           else
             (case resp of
                None \<Rightarrow> Some (Inl NilDereference)
              | Some r \<Rightarrow>
                  (case err r of
                     Some e \<Rightarrow> Some (Inr ((None, Some (Trace e)), w1))
                   | None \<Rightarrow>
                       (let w2 = w1\<lparr>trace := trace w1 @ [CheckVisibility (StartTs req)]\<rparr>
                        in case checkVisibility env (trace w1) (StartTs req) of
                             Some e \<Rightarrow> Some (Inr ((None, Some (Trace e)), w2))
                           | None \<Rightarrow> Some (Inr ((Some r, None), w2)))))))"

text \<open>
  \<^verbatim>\<open>sendBatch\<close> (lines 295-319): the response is an error response or the iterator with
  its tasks; the state of the iterator is in the world.
\<close>

datatype response = CopErrorResponse error | BatchCopIterator "batchCopTask list"

definition sendBatch ::
  "'f env \<Rightarrow> nat \<Rightarrow> world \<Rightarrow> Request \<Rightarrow> (response result \<times> world) option"
where
  "sendBatch env fuel w req =
     (if KeepOrder req \<or> Desc req then
        Some (Ok (CopErrorResponse
                (ErrorNew ''batch coprocessor cannot prove keep order or desc property'')), w)
      else
        (case buildBatchCopTasks env fuel (trace w) (KeyRanges req) (StoreType req) of
           None \<Rightarrow> None
         | Some (Panicked p, tr) \<Rightarrow> Some (Panicked p, w\<lparr>trace := tr\<rparr>)
         | Some (Err e, tr) \<Rightarrow> Some (Ok (CopErrorResponse e), w\<lparr>trace := tr\<rparr>)
         | Some (Ok tasks, tr) \<Rightarrow> Some (Ok (BatchCopIterator tasks), newIterator tr)))"

text \<open>
  Modelled from the spec: \<^verbatim>\<open>copErrorResponse\<close> and its \<^verbatim>\<open>Next\<close> are in another file of the
  package. The specification says that an error response yields its error at once on
  the first \<^verbatim>\<open>next\<close>: no result subset, the error, and nothing else happens.
\<close>

definition copErrorResponse_Next :: "error \<Rightarrow> world \<Rightarrow> (batchCopResponse option \<times> error option) \<times> world"
where
  "copErrorResponse_Next e w = ((None, Some e), w)"

text \<open>
  The operations that touch the state of an iterator, for any interleaving of the caller
  and the workers: a worker sends a sub-response or the error of its task, a worker runs
  a whole task, \<^verbatim>\<open>run\<close> closes \<^verbatim>\<open>respChan\<close>, the caller calls \<^verbatim>\<open>Next\<close> or \<^verbatim>\<open>Close\<close>.
  \<open>exec\<close> runs a sequence of them; \<open>None\<close> when one panics or does not return.
\<close>

datatype operation =
    WorkerResponse BatchResponse batchCopTask
  | WorkerError error
  | WorkerTask nat Request batchCopTask
  | RunDone
  | CallNext Request "selectCase list"
  | CallClose

fun step :: "'f env \<Rightarrow> operation \<Rightarrow> world \<Rightarrow> world option" where
  "step env (WorkerResponse response task) w = Some (snd (handleBatchCopResponse env w response task))"
| "step env (WorkerError e) w = Some (reportTaskError env w e)"
| "step env (WorkerTask fuel req task) w =
     (case handleTask env fuel req w task of Some (Inr w') \<Rightarrow> Some w' | _ \<Rightarrow> None)"
| "step env RunDone w = Some (w\<lparr>respChanClosed := True\<rparr>)"
| "step env (CallNext req cs) w =
     (case Next env req cs w of Some (Inr (r, w')) \<Rightarrow> Some w' | _ \<Rightarrow> None)"
| "step env CallClose w = (case Close w of Inr (e, w') \<Rightarrow> Some w' | Inl p \<Rightarrow> None)"

fun exec :: "'f env \<Rightarrow> operation list \<Rightarrow> world \<Rightarrow> world option" where
  "exec env [] w = Some w"
| "exec env (op # ops) w = (case step env op w of None \<Rightarrow> None | Some w' \<Rightarrow> exec env ops w')"

section \<open>Properties of the balancer, stated\<close>

text \<open>
  \<open>pinnedFrom drafts t\<close>: the task \<open>t\<close> starts with the pinned first region of a draft
  task of \<open>drafts\<close> and is addressed to the store of that draft (same \<^verbatim>\<open>storeAddr\<close> and
  \<^verbatim>\<open>cmdType\<close>). Equal first regions have equal primary stores \<^verbatim>\<open>AllStores[0]\<close>, so the
  draft is the one of the task's primary store.
\<close>

definition pinnedFrom :: "batchCopTask list \<Rightarrow> batchCopTask \<Rightarrow> bool" where
  "pinnedFrom drafts t =
     (\<exists>d \<in> set drafts. regionInfos d \<noteq> [] \<and> regionInfos t \<noteq> [] \<and>
        hd (regionInfos t) = hd (regionInfos d) \<and> storeAddr t = storeAddr d \<and>
        cmdType t = cmdType d)"

text \<open>
  \<open>sameHead d t\<close>: the task \<open>t\<close> has the first region, the store address and the command
  type of the draft \<open>d\<close>. \<open>primaryStore\<close> is \<^verbatim>\<open>task.regionInfos[0].AllStores[0]\<close> of a
  draft that has one.
\<close>

definition sameHead :: "batchCopTask \<Rightarrow> batchCopTask \<Rightarrow> bool" where
  "sameHead d t =
     (regionInfos t \<noteq> [] \<and> hd (regionInfos t) = hd (regionInfos d) \<and>
      storeAddr t = storeAddr d \<and> cmdType t = cmdType d)"

definition primaryStore :: "batchCopTask \<Rightarrow> uint64" where
  "primaryStore t = hd (AllStores (hd (regionInfos t)))"

text \<open>
  Invariants of the store-task map: a property of every task in it that appending a
  region keeps; and the map keeps, under every key, a task with the same first region
  and store address.
\<close>

definition tasksAll :: "(batchCopTask \<Rightarrow> bool) \<Rightarrow> (uint64 \<times> batchCopTask) list \<Rightarrow> bool" where
  "tasksAll P stm = (\<forall>(k, t) \<in> set stm. P t)"

definition keptByAppend :: "(batchCopTask \<Rightarrow> bool) \<Rightarrow> bool" where
  "keptByAppend P = (\<forall>t ri. P t \<longrightarrow> P (t\<lparr>regionInfos := regionInfos t @ [ri]\<rparr>))"

definition stable :: "(uint64 \<times> batchCopTask) list \<Rightarrow> (uint64 \<times> batchCopTask) list \<Rightarrow> bool" where
  "stable stm stm' =
     (\<forall>k t. map_of stm k = Some t \<and> regionInfos t \<noteq> [] \<longrightarrow>
        (\<exists>t'. map_of stm' k = Some t' \<and> sameHead t t'))"

section \<open>Properties of the region scan, stated\<close>

text \<open>
  The valid stores of a region as the specification defines them: the stores of
  \<^verbatim>\<open>r.AllStores\<close> that are keys of the store-task map.
\<close>

definition validStores :: "(uint64 \<times> batchCopTask) list \<Rightarrow> RegionInfo \<Rightarrow> uint64 set" where
  "validStores stm ri = {storeID \<in> set (AllStores ri). map_of stm storeID \<noteq> None}"

text \<open>The state in which the region has been appended to the task of one store.\<close>

definition appendTo :: "uint64 \<Rightarrow> RegionInfo \<Rightarrow> 'f balance_state \<Rightarrow> 'f balance_state" where
  "appendTo storeID ri st =
     (case map_of (storeTaskMap st) storeID of
        None \<Rightarrow> st
      | Some t \<Rightarrow>
          st\<lparr>storeTaskMap :=
               AList.update storeID (t\<lparr>regionInfos := regionInfos t @ [ri]\<rparr>) (storeTaskMap st)\<rparr>)"

text \<open>
  The state in which the scan of lines 115-157 starts: the store-task map of lines
  107-114, no candidate and the counters at zero.
\<close>

definition scanStart :: "'f runtime \<Rightarrow> (uint64 \<times> batchCopTask) list \<Rightarrow> 'f balance_state" where
  "scanStart rt stm =
     \<lparr>storeTaskMap = stm, storeCandidateTaskMap = [],
      totalCandidateStoreNum = 0, totalCandidateCopTaskNum = 0,
      avgStorePerTask = float64 rt 0, store = MaxUint64,
      possibleTaskNum = float64 rt 0, rangeCount = 0\<rparr>"

text \<open>
  \<open>grows stm stm'\<close>: every task of the store-task map \<open>stm\<close> is still there under its
  key in \<open>stm'\<close>, with the same regions in the same order and perhaps more after them.
\<close>

definition grows :: "(uint64 \<times> batchCopTask) list \<Rightarrow> (uint64 \<times> batchCopTask) list \<Rightarrow> bool" where
  "grows stm stm' =
     (\<forall>k t. map_of stm k = Some t \<longrightarrow>
        (\<exists>t' more. map_of stm' k = Some t' \<and> regionInfos t' = regionInfos t @ more))"

text \<open>
  The insertions into the candidate maps that the scan of lines 115-157 makes for a region
  and for a draft list when it is not cut short, as pairs (store, region key), in the
  order of the scan: every region but the first of its task whose count of valid stores
  is not one is put under its key into the map of every store of its \<^verbatim>\<open>AllStores\<close>.
\<close>

definition regionInserts ::
  "'f runtime \<Rightarrow> (uint64 \<times> batchCopTask) list \<Rightarrow> RegionInfo \<Rightarrow> (uint64 \<times> string) list" where
  "regionInserts rt stm ri =
     (if validStoreNum stm ri = 1 then []
      else map (\<lambda>storeID. (storeID, String_of rt (Region ri))) (AllStores ri))"

definition candidateInserts ::
  "'f runtime \<Rightarrow> (uint64 \<times> batchCopTask) list \<Rightarrow> batchCopTask list \<Rightarrow> (uint64 \<times> string) list" where
  "candidateInserts rt stm tasks =
     concat (map (\<lambda>task. concat (map (regionInserts rt stm) (tl (regionInfos task)))) tasks)"

text \<open>The pairs (store, region key) present in the candidate maps.\<close>

definition candKeys :: "(uint64 \<times> (string \<times> RegionInfo) list) list \<Rightarrow> (uint64 \<times> string) set" where
  "candKeys c = {(s, k). \<exists>m. map_of c s = Some m \<and> map_of m k \<noteq> None}"

text \<open>The primary stores \<^verbatim>\<open>task.regionInfos[0].AllStores[0]\<close> of a draft list.\<close>

definition primaryStores :: "batchCopTask list \<Rightarrow> uint64 set" where
  "primaryStores ts =
     set (concat (map (\<lambda>t. take 1 (concat (map AllStores (take 1 (regionInfos t))))) ts))"

text \<open>The regions of a task list, as a multiset.\<close>

definition regionsOf :: "batchCopTask list \<Rightarrow> RegionInfo multiset" where
  "regionsOf tasks = mset (concat (map regionInfos tasks))"

text \<open>
  The number of regions in the tasks of the store-task map, the number of stores of a
  region that have a candidate map, and the candidate maps in which every region has at
  least three such stores.
\<close>

definition taskLoad :: "(uint64 \<times> batchCopTask) list \<Rightarrow> nat" where
  "taskLoad stm = sum_list (map (\<lambda>p. length (regionInfos (snd p))) stm)"

definition storesWithMap :: "(uint64 \<times> (string \<times> RegionInfo) list) list \<Rightarrow> RegionInfo \<Rightarrow> nat" where
  "storesWithMap c ri = length (filter (\<lambda>sid. map_of c sid \<noteq> None) (AllStores ri))"

definition heavy :: "(uint64 \<times> (string \<times> RegionInfo) list) list \<Rightarrow> bool" where
  "heavy c = (\<forall>(s, m) \<in> set c. \<forall>(k, ri) \<in> set m. 3 \<le> storesWithMap c ri)"

section \<open>Properties of the dispatch core, stated\<close>

text \<open>
  The trace of a send that failed in the transport with the error \<open>e\<close>, up to the call
  of \<^verbatim>\<open>onSendFailForBatchRegions\<close>, and the trace after the topology cache has been told
  of the failure.
\<close>

definition sendFailTrace :: "'f env \<Rightarrow> event list \<Rightarrow> RPCContext \<Rightarrow> error \<Rightarrow> event list" where
  "sendFailTrace env tr c e =
     tr @ [SetContext, SendRequest (Addr c)]
        @ (if hasRPCCanceller env then [CancelRPC] else []) @ [SetRPCError e]"

definition notifiedTrace ::
  "'f env \<Rightarrow> event list \<Rightarrow> RPCContext \<Rightarrow> RegionInfo list \<Rightarrow> error \<Rightarrow> event list" where
  "notifiedTrace env tr c regions e =
     sendFailTrace env tr c e
       @ [OnSendFailForBatchRegions (Store c) regions
            (needReloadRegion env (sendFailTrace env tr c e)) e]"

text \<open>The trace after every sub-response of a stream has been received and \<^verbatim>\<open>Recv\<close> has
  returned the error that ends it.\<close>

definition afterStream :: "world \<Rightarrow> BatchCopStreamResponse \<Rightarrow> event list" where
  "afterStream w response = trace w @ replicate (Suc (length (pending response))) Recv"

text \<open>
  The trace of a planning pass after \<^verbatim>\<open>SplitKeyRanges\<close>, and what the topology cache
  answers for the \<open>i\<close>-th region of a pass when the regions before it have been resolved.
\<close>

definition firstTrace :: "event list \<Rightarrow> (string \<times> string) list \<Rightarrow> event list" where
  "firstTrace tr ranges = tr @ [SplitKeyRanges ranges]"

definition resolvedAt ::
  "'f env \<Rightarrow> event list \<Rightarrow> RegionVerID list \<Rightarrow> nat \<Rightarrow> error + RPCContext option" where
  "resolvedAt env tr regs i =
     getTiFlashRPCContext env (tr @ map GetTiFlashRPCContext (take i regs)) (regs ! i)"

text \<open>
  \<open>quiet tr tr'\<close>: the trace has grown from \<open>tr\<close> to \<open>tr'\<close> and the finish signal was not
  closed on the way. \<open>closesSince tr w\<close> counts the closes of the finish signal since the
  iterator was made at trace \<open>tr\<close>.
\<close>

definition quiet :: "event list \<Rightarrow> event list \<Rightarrow> bool" where
  "quiet tr tr' = (\<exists>evs. tr' = tr @ evs \<and> CloseFinishCh \<notin> set evs)"

definition closesSince :: "event list \<Rightarrow> world \<Rightarrow> nat" where
  "closesSince tr w = count_list (drop (length tr) (trace w)) CloseFinishCh"

text \<open>A response that carries an error or a payload.\<close>

definition goodResp :: "batchCopResponse \<Rightarrow> bool" where
  "goodResp r = (err r \<noteq> None \<or> pbResp r \<noteq> None)"

text \<open>
  What a worker may do to the state of the iterator: it leaves the \<^verbatim>\<open>closed\<close> flag and
  the finish signal alone, and what it adds to \<^verbatim>\<open>respChan\<close> carries an error or a payload.
\<close>

definition worker :: "world \<Rightarrow> world \<Rightarrow> bool" where
  "worker w w' =
     (closed w' = closed w \<and> finishChClosed w' = finishChClosed w \<and>
      quiet (trace w) (trace w') \<and>
      (\<forall>r \<in> set (respChan w'). r \<in> set (respChan w) \<or> goodResp r))"

text \<open>
  The invariant of an iterator made at trace \<open>tr\<close>: the \<^verbatim>\<open>closed\<close> flag is zero exactly
  as long as the finish signal is open, the finish signal has been closed once if it is
  closed and never otherwise, and every queued response carries an error or a payload.
\<close>

definition iterInv :: "event list \<Rightarrow> world \<Rightarrow> bool" where
  "iterInv tr w =
     ((closed w = 0) = (\<not> finishChClosed w) \<and>
      take (length tr) (trace w) = tr \<and>
      closesSince tr w = (if finishChClosed w then 1 else 0) \<and>
      (\<forall>r \<in> set (respChan w). goodResp r))"

section \<open>Concrete inputs\<close>

text \<open>
  A run-time environment for the examples: exact rational arithmetic for the load
  estimate, every \<^verbatim>\<open>range\<close> in the order of insertion, and a region key that writes
  the region id in unary.
\<close>

definition rt0 :: "rat runtime" where
  "rt0 = \<lparr>String_of = (\<lambda>r. replicate (unat (regionId r)) CHR ''r''), float64 = of_int,
          fdiv = (/), fadd = (+), flt = (<), fle = (\<le>), fzero = (\<lambda>x. x = 0),
          rangeOrder = (\<lambda>n. [])\<rparr>"

definition reg :: "nat \<Rightarrow> uint64 list \<Rightarrow> RegionInfo" where
  "reg n ss = \<lparr>Region = \<lparr>regionId = of_nat n, confVer = 1, ver = 1\<rparr>, Meta = n, Ranges = [],
               AllStores = ss\<rparr>"

definition tk :: "string \<Rightarrow> RegionInfo list \<Rightarrow> batchCopTask" where
  "tk a rs = \<lparr>storeAddr = a, cmdType = CmdBatchCop, ctx = None, regionInfos = rs\<rparr>"

text \<open>
  Two drafts on the stores 1 and 2; the two spare regions of the first draft have a
  replica on both stores.
\<close>

definition draftTwoStores :: "batchCopTask list" where
  "draftTwoStores =
     [tk ''s1'' [reg 1 [1], reg 3 [1, 2], reg 4 [1, 2]], tk ''s2'' [reg 2 [2]]]"

text \<open>
  The state of the balancer after lines 107-114 for two drafts on the stores 1 and 2.
\<close>

definition stateTwoStores :: "rat balance_state" where
  "stateTwoStores =
     \<lparr>storeTaskMap = [(1, tk ''s1'' [reg 1 [1]]), (2, tk ''s2'' [reg 2 [2]])],
      storeCandidateTaskMap = [], totalCandidateStoreNum = 0, totalCandidateCopTaskNum = 0,
      avgStorePerTask = 0, store = MaxUint64, possibleTaskNum = 0, rangeCount = 0\<rparr>"

text \<open>A draft in which the planner has emitted the region 3 twice.\<close>

definition draftDuplicate :: "batchCopTask list" where
  "draftDuplicate =
     [tk ''s1'' [reg 1 [1], reg 3 [1, 2], reg 3 [1, 2]], tk ''s2'' [reg 2 [2]]]"

text \<open>
  Two drafts on the stores 1 and 2. The three spare regions of the first draft have
  replicas on both stores and each on one more store (3, 4 and 5) that is the primary
  store of no draft.
\<close>

definition draftSpareStores :: "batchCopTask list" where
  "draftSpareStores =
     [tk ''s1'' [reg 1 [1], reg 3 [1, 2, 3], reg 4 [1, 2, 4], reg 5 [1, 2, 5]],
      tk ''s2'' [reg 2 [2]]]"

text \<open>
  An environment for the examples. The topology cache knows one region; it has no
  \<^verbatim>\<open>RPCContext\<close> for it until the planner has backed off once. The first send to a store
  fails in the transport, a later one gets a stream of two sub-responses that ends with
  a transport error. No backoff fails, nothing is cancelled or shut down.
\<close>

definition region1 :: RegionVerID where
  "region1 = \<lparr>regionId = 1, confVer = 1, ver = 1\<rparr>"

definition ctx1 :: RPCContext where
  "ctx1 = \<lparr>Addr = ''s1'', CtxMeta = 1, Peer = 1, Store = 1\<rparr>"

definition stream1 :: BatchCopStreamResponse where
  "stream1 =
     \<lparr>firstResponse = Some \<lparr>Data = ''X'', OtherError = []\<rparr>,
      pending = [\<lparr>Data = ''Y'', OtherError = []\<rparr>],
      final = ErrorNew ''connection reset''\<rparr>"

definition env1 :: "rat env" where
  "env1 =
     \<lparr>runtime_of = rt0,
      planRangeOrder = (\<lambda>tr. []),
      splitKeyRanges = (\<lambda>tr ranges. Inr [(region1, ranges)]),
      getTiFlashRPCContext =
        (\<lambda>tr r. if Backoff BoRegionMiss \<in> set tr then Inr (Some ctx1) else Inr None),
      getAllValidTiFlashStores = (\<lambda>tr r s. [s]),
      backoff = (\<lambda>tr b. None),
      setContext = (\<lambda>tr. None),
      hasRPCCanceller = True,
      sendRequest =
        (\<lambda>tr a. if SendRequest a \<in> set tr then Inr stream1
                 else Inl (ErrorNew ''connection refused'')),
      needReloadRegion = (\<lambda>tr. False),
      ShuttingDown = (\<lambda>tr. 0),
      checkVisibility = (\<lambda>tr ts. None),
      Killed = (\<lambda>tr. 0),
      selectSend = (\<lambda>tr. True)\<rparr>"

definition task1 :: batchCopTask where
  "task1 =
     \<lparr>storeAddr = ''s1'', cmdType = CmdBatchCop, ctx = Some ctx1,
      regionInfos = [\<lparr>Region = region1, Meta = 1, Ranges = [(''a'', ''z'')], AllStores = [1]\<rparr>]\<rparr>"

definition request1 :: Request where
  "request1 = \<lparr>KeepOrder = False, Desc = False, StartTs = 7, KeyRanges = [(''a'', ''z'')],
               StoreType = 0\<rparr>"

text \<open>
  The state of the balancer after the scan of \<open>draftSpareStores\<close>, and the keys of its
  three spare regions.
\<close>

definition spareScan :: "'f runtime \<Rightarrow> 'f balance_state" where
  "spareScan rt =
     \<lparr>storeTaskMap = [(1, tk ''s1'' [reg 1 [1]]), (2, tk ''s2'' [reg 2 [2]])],
      storeCandidateTaskMap =
        [(1, [(String_of rt (Region (reg 3 [1, 2, 3])), reg 3 [1, 2, 3]),
              (String_of rt (Region (reg 4 [1, 2, 4])), reg 4 [1, 2, 4]),
              (String_of rt (Region (reg 5 [1, 2, 5])), reg 5 [1, 2, 5])]),
         (2, [(String_of rt (Region (reg 3 [1, 2, 3])), reg 3 [1, 2, 3]),
              (String_of rt (Region (reg 4 [1, 2, 4])), reg 4 [1, 2, 4]),
              (String_of rt (Region (reg 5 [1, 2, 5])), reg 5 [1, 2, 5])]),
         (3, [(String_of rt (Region (reg 3 [1, 2, 3])), reg 3 [1, 2, 3])]),
         (4, [(String_of rt (Region (reg 4 [1, 2, 4])), reg 4 [1, 2, 4])]),
         (5, [(String_of rt (Region (reg 5 [1, 2, 5])), reg 5 [1, 2, 5])])],
      totalCandidateStoreNum = 6, totalCandidateCopTaskNum = 3,
      avgStorePerTask = float64 rt 0, store = MaxUint64, possibleTaskNum = float64 rt 0,
      rangeCount = 0\<rparr>"

definition spareKeys :: "'f runtime \<Rightarrow> string list" where
  "spareKeys rt = map (\<lambda>n. String_of rt \<lparr>regionId = n, confVer = 1, ver = 1\<rparr>) [3, 4, 5]"

text \<open>
  Two drafts on the stores 1 and 2; the two spare regions of the first draft have a
  replica on the store 3, which is the primary store of no draft.
\<close>

definition draftSharedSpare :: "batchCopTask list" where
  "draftSharedSpare =
     [tk ''s1'' [reg 1 [1], reg 3 [1, 2, 3], reg 4 [1, 2, 3]], tk ''s2'' [reg 2 [2]]]"

text \<open>Two drafts as the planner makes them, each with the \<^verbatim>\<open>RPCContext\<close> of its store.\<close>

definition ctx2 :: RPCContext where
  "ctx2 = \<lparr>Addr = ''s2'', CtxMeta = 2, Peer = 2, Store = 2\<rparr>"

definition draftWithCtx :: "batchCopTask list" where
  "draftWithCtx =
     [(tk ''s1'' [reg 1 [1], reg 3 [1, 2], reg 4 [1, 2]])\<lparr>ctx := Some ctx1\<rparr>,
      (tk ''s2'' [reg 2 [2]])\<lparr>ctx := Some ctx2\<rparr>]"


text \<open>
  Two drafts on the stores 1 and 2. In the first, the region 4 has a replica on both
  stores and the region 3 has one on the store 3, which is the primary store of no
  draft; and the state of the balancer when the scan has taken the region 4 for a
  candidate.
\<close>

definition draftSingleValid :: "batchCopTask list" where
  "draftSingleValid =
     [tk ''s1'' [reg 1 [1], reg 4 [1, 2], reg 3 [1, 3]], tk ''s2'' [reg 2 [2]]]"

definition stateOneCandidate :: "rat balance_state" where
  "stateOneCandidate =
     stateTwoStores
       \<lparr>storeCandidateTaskMap :=
          [(1, [(''rrrr'', reg 4 [1, 2])]), (2, [(''rrrr'', reg 4 [1, 2])])],
        totalCandidateStoreNum := 2, totalCandidateCopTaskNum := 1\<rparr>"

text \<open>
  An environment in which every send is cancelled, the two responses that a worker
  queues there (a sub-response of the store, and the error of the task), and the state
  of the iterator after the failed send.
\<close>

definition envCanceled :: "rat env" where
  "envCanceled = env1\<lparr>sendRequest := (\<lambda>tr a. Inl ContextCanceled)\<rparr>"

definition respPayload :: batchCopResponse where
  "respPayload =
     \<lparr>pbResp = Some \<lparr>Data = ''X'', OtherError = []\<rparr>,
      detail = Some \<lparr>CalleeAddress = ''s1''\<rparr>, startKey = [], err = None,
      respSize = 0, respTime = 0\<rparr>"

definition respFailed :: batchCopResponse where
  "respFailed =
     \<lparr>pbResp = None, detail = Some \<lparr>CalleeAddress = []\<rparr>, startKey = [],
      err = Some (Trace (Trace (Trace (Trace ContextCanceled)))), respSize = 0, respTime = 0\<rparr>"

definition worldFailed :: "batchCopResponse list \<Rightarrow> event list \<Rightarrow> world" where
  "worldFailed queue evs =
     \<lparr>trace = [GoRun, SetContext, SendRequest ''s1'', CancelRPC, SetRPCError ContextCanceled] @ evs,
      respChan = queue, respChanClosed = False, finishChClosed = False, closed = 0\<rparr>"

section \<open>The balancer keeps the pinned regions\<close>

lemma mset_permute: "mset (permute cs xs) = mset xs"
proof (induction cs xs rule: permute.induct)
  case (3 c cs x xs)
  let ?ys = "x # xs"
  let ?i = "c mod length ?ys"
  have lt: "?i < length ?ys" by simp
  have "mset ?ys = mset (take ?i ?ys @ ?ys ! ?i # drop (Suc ?i) ?ys)"
    using id_take_nth_drop [OF lt] by simp
  then show ?case using 3 by (simp add: Let_def)
qed simp_all

lemma set_permute: "set (permute cs xs) = set xs"
  using mset_permute [of cs xs] by (metis set_mset_mset)

text \<open>Every order of the entries is the order of some choice sequence.\<close>

lemma permute_complete: "mset ys = mset xs \<Longrightarrow> \<exists>cs. permute cs xs = ys"
proof (induction ys arbitrary: xs)
  case Nil
  then have "xs = []" by simp
  then show ?case by (intro exI [of _ "[]"]) simp
next
  case (Cons y ys)
  have "y \<in> set xs" using Cons.prems by (metis list.set_intros(1) set_mset_mset)
  then obtain i where i: "i < length xs" "xs ! i = y" by (auto simp: in_set_conv_nth)
  let ?xs' = "take i xs @ drop (Suc i) xs"
  have "mset xs = mset (take i xs @ xs ! i # drop (Suc i) xs)"
    using id_take_nth_drop [OF i(1)] by simp
  then have "mset xs = add_mset y (mset ?xs')" using i(2) by simp
  then have "mset ys = mset ?xs'" using Cons.prems by simp
  from Cons.IH [OF this] obtain cs where cs: "permute cs ?xs' = ys" by blast
  obtain x xr where x: "xs = x # xr" using i(1) by (cases xs) auto
  have "permute (i # cs) xs = ys' " if "ys' = y # ys" for ys'
    using that i cs unfolding x by (simp add: Let_def)
  then show ?case by blast
qed

lemma set_update_subset: "set (AList.update k v al) \<subseteq> insert (k, v) (set al)"
  by (induction al) auto

lemma stm_findNextStore [simp]: "storeTaskMap (findNextStore rt st) = storeTaskMap st"
  by (simp add: findNextStore_def split: prod.splits)

lemma stm_removeCandidate [simp]:
  "storeTaskMap (removeCandidate key ss st) = storeTaskMap st"
  by (induction ss arbitrary: st) (auto split: option.splits)

lemma stm_switchStore:
  "switchStore rt ss st = Inr st' \<Longrightarrow> storeTaskMap st' = storeTaskMap st"
  by (induction ss arbitrary: st) (auto split: if_splits option.splits)

lemma init_nonempty:
  "initStoreTaskMap ts m = Inr m' \<Longrightarrow> \<forall>d \<in> set ts. regionInfos d \<noteq> []"
  by (induction ts arbitrary: m) (auto split: list.splits)

lemma tasksAll_update: "tasksAll P stm \<Longrightarrow> P t \<Longrightarrow> tasksAll P (AList.update k t stm)"
  using set_update_subset [of k t stm] by (auto simp: tasksAll_def)

lemma tasksAll_lookup: "tasksAll P stm \<Longrightarrow> map_of stm k = Some t \<Longrightarrow> P t"
  by (auto simp: tasksAll_def dest: map_of_SomeD)

lemma tasksAll_append:
  assumes "keptByAppend P" and "tasksAll P stm" and "map_of stm k = Some t"
  shows "tasksAll P (AList.update k (t\<lparr>regionInfos := regionInfos t @ [ri]\<rparr>) stm)"
proof -
  have "P t" using assms(2,3) by (rule tasksAll_lookup)
  then have "P (t\<lparr>regionInfos := regionInfos t @ [ri]\<rparr>)"
    using assms(1) by (simp add: keptByAppend_def)
  with assms(2) show ?thesis by (rule tasksAll_update)
qed

lemma tasksAll_scanRegion:
  assumes "keptByAppend P" and "scanRegion rt tid st ri = Continue st'"
      and "tasksAll P (storeTaskMap st)"
  shows "tasksAll P (storeTaskMap st')"
proof (cases "validStoreNum (storeTaskMap st) ri = 1")
  case True
  with assms(2) obtain t where t: "map_of (storeTaskMap st) tid = Some t" and
    s: "storeTaskMap st' =
          AList.update tid (t\<lparr>regionInfos := regionInfos t @ [ri]\<rparr>) (storeTaskMap st)"
    by (auto simp: scanRegion_def split: option.splits)
  show ?thesis unfolding s using assms(1,3) t by (rule tasksAll_append)
next
  case False
  with assms(2) have "storeTaskMap st' = storeTaskMap st"
    by (auto simp: scanRegion_def split: option.splits)
  with assms(3) show ?thesis by simp
qed

lemma tasksAll_scanRegions:
  assumes "keptByAppend P"
  shows "scanRegions rt tid i rs st = Continue st' \<Longrightarrow> tasksAll P (storeTaskMap st) \<Longrightarrow>
         tasksAll P (storeTaskMap st')"
proof (induction rs arbitrary: i st)
  case Nil
  then show ?case by simp
next
  case (Cons ri rest)
  show ?case
  proof (cases "i = 0")
    case True
    with Cons show ?thesis by simp
  next
    case False
    with Cons.prems(1) obtain st1 where
      a: "scanRegion rt tid st ri = Continue st1" and
      b: "scanRegions rt tid (Suc i) rest st1 = Continue st'"
      by (auto split: flow.splits)
    have "tasksAll P (storeTaskMap st1)"
      using assms a Cons.prems(2) by (rule tasksAll_scanRegion)
    with Cons.IH [OF b] show ?thesis .
  qed
qed

lemma tasksAll_scanTasks:
  assumes "keptByAppend P"
  shows "scanTasks rt ts st = Continue st' \<Longrightarrow> tasksAll P (storeTaskMap st) \<Longrightarrow>
         tasksAll P (storeTaskMap st')"
proof (induction ts arbitrary: st)
  case Nil
  then show ?case by simp
next
  case (Cons t rest)
  from Cons.prems(1) obtain tid st1 where
    a: "scanRegions rt tid 0 (regionInfos t) st = Continue st1" and
    b: "scanTasks rt rest st1 = Continue st'"
    by (auto split: list.splits flow.splits)
  have "tasksAll P (storeTaskMap st1)"
    using tasksAll_scanRegions [OF assms a Cons.prems(2)] .
  with Cons.IH [OF b] show ?case .
qed

lemma assignRegion_stm:
  assumes "assignRegion rt key ri st = Inr st'"
  shows "\<exists>t. map_of (storeTaskMap st) (store st) = Some t \<and>
           storeTaskMap st' =
             AList.update (store st) (t\<lparr>regionInfos := regionInfos t @ [ri]\<rparr>) (storeTaskMap st)"
proof -
  from assms obtain t where t: "map_of (storeTaskMap st) (store st) = Some t"
    by (auto simp: assignRegion_def split: option.splits)
  have "storeTaskMap st' =
          AList.update (store st) (t\<lparr>regionInfos := regionInfos t @ [ri]\<rparr>) (storeTaskMap st)"
    using assms t
    by (auto simp: assignRegion_def Let_def split: if_splits dest!: stm_switchStore)
  with t show ?thesis by blast
qed

lemma balanceStep_stm:
  assumes "balanceStep rt st = Inr st'"
  shows "storeTaskMap st' = storeTaskMap st \<or>
         (\<exists>k t ri. map_of (storeTaskMap st) k = Some t \<and>
            storeTaskMap st' =
              AList.update k (t\<lparr>regionInfos := regionInfos t @ [ri]\<rparr>) (storeTaskMap st))"
proof -
  define st1 where "st1 = (if candLen (storeCandidateTaskMap st) (store st) = 0
                 then findNextStore rt st else st)"
  define m where "m = (case map_of (storeCandidateTaskMap st1) (store st1) of
                 None \<Rightarrow> [] | Some m \<Rightarrow> m)"
  have k1: "storeTaskMap st1 = storeTaskMap st" by (simp add: st1_def)
  have step: "balanceStep rt st =
     (case permute (rangeOrder rt (rangeCount st1)) m of
           [] \<Rightarrow> Inr (st1\<lparr>rangeCount := Suc (rangeCount st1)\<rparr>)
         | (key, ri) # _ \<Rightarrow> assignRegion rt key ri (st1\<lparr>rangeCount := Suc (rangeCount st1)\<rparr>))"
    unfolding balanceStep_def st1_def m_def Let_def by (rule refl)
  show ?thesis
  proof (cases "permute (rangeOrder rt (rangeCount st1)) m")
    case Nil
    with step assms have "st' = st1\<lparr>rangeCount := Suc (rangeCount st1)\<rparr>" by simp
    then show ?thesis using k1 by simp
  next
    case (Cons p ps)
    obtain key ri where p: "p = (key, ri)" by (cases p)
    have "assignRegion rt key ri (st1\<lparr>rangeCount := Suc (rangeCount st1)\<rparr>) = Inr st'"
      using step Cons p assms by simp
    from assignRegion_stm [OF this] show ?thesis using k1 by auto
  qed
qed

lemma tasksAll_balanceLoop:
  assumes "keptByAppend P"
  shows "balanceLoop rt fuel st = Some (Inr st') \<Longrightarrow> tasksAll P (storeTaskMap st) \<Longrightarrow>
         tasksAll P (storeTaskMap st')"
proof (induction fuel arbitrary: st)
  case 0
  then show ?case by (auto split: if_splits)
next
  case (Suc n)
  show ?case
  proof (cases "totalCandidateStoreNum st > 0")
    case False
    with Suc.prems show ?thesis by simp
  next
    case True
    with Suc.prems(1) obtain st1 where
      a: "balanceStep rt st = Inr st1" and b: "balanceLoop rt n st1 = Some (Inr st')"
      by (auto split: sum.splits)
    have "tasksAll P (storeTaskMap st1)"
      using balanceStep_stm [OF a] Suc.prems(2) tasksAll_append [OF assms] by auto
    with Suc.IH [OF b] show ?thesis .
  qed
qed

lemma balance_result:
  assumes "balanceBatchCopTask rt fuel originalTasks = Some (Inr res)"
  shows "\<exists>stm. initStoreTaskMap originalTasks [] = Inr stm \<and>
           (res = originalTasks \<or>
            (\<exists>st st0 st'.
               scanTasks rt originalTasks
                 \<lparr>storeTaskMap = stm, storeCandidateTaskMap = [],
                  totalCandidateStoreNum = 0, totalCandidateCopTaskNum = 0,
                  avgStorePerTask = float64 rt 0, store = MaxUint64,
                  possibleTaskNum = float64 rt 0, rangeCount = 0\<rparr> = Continue st \<and>
               storeTaskMap st0 = storeTaskMap st \<and>
               balanceLoop rt fuel st0 = Some (Inr st') \<and>
               res = map snd (permute (rangeOrder rt (rangeCount st')) (storeTaskMap st'))))"
proof (cases "initStoreTaskMap originalTasks []")
  case (Inl p)
  with assms show ?thesis by (simp add: balanceBatchCopTask_def)
next
  case (Inr stm)
  let ?st = "\<lparr>storeTaskMap = stm, storeCandidateTaskMap = [],
                   totalCandidateStoreNum = 0, totalCandidateCopTaskNum = 0,
                   avgStorePerTask = float64 rt 0, store = MaxUint64,
                   possibleTaskNum = float64 rt 0, rangeCount = 0\<rparr>"
  show ?thesis
  proof (cases "scanTasks rt originalTasks ?st")
    case (Continue st)
    let ?st0 = "st\<lparr>avgStorePerTask := fdiv rt (float64 rt (totalCandidateStoreNum st))
                                (float64 rt (totalCandidateCopTaskNum st))\<rparr>"
    show ?thesis
    proof (cases "totalCandidateStoreNum st = 0")
      case True
      with assms Inr Continue have "res = originalTasks"
        by (simp add: balanceBatchCopTask_def)
      with Inr show ?thesis by simp
    next
      case False
      with assms Inr Continue obtain st' where
        l: "balanceLoop rt fuel (findNextStore rt ?st0) = Some (Inr st')" and
        r: "res = map snd (permute (rangeOrder rt (rangeCount st')) (storeTaskMap st'))"
        by (auto simp: balanceBatchCopTask_def split: option.splits sum.splits)
      have "storeTaskMap (findNextStore rt ?st0) = storeTaskMap st" by simp
      with Inr Continue l r show ?thesis by blast
    qed
  next
    case ReturnOriginal
    with assms Inr have "res = originalTasks"
      by (simp add: balanceBatchCopTask_def)
    with Inr show ?thesis by simp
  next
    case (Panic p)
    with assms Inr show ?thesis by (simp add: balanceBatchCopTask_def)
  qed
qed

lemma keptByAppend_pinnedFrom: "keptByAppend (pinnedFrom D)"
  by (auto simp: keptByAppend_def pinnedFrom_def)

lemma pinned_init:
  "initStoreTaskMap ts m = Inr m' \<Longrightarrow> set ts \<subseteq> set D \<Longrightarrow> tasksAll (pinnedFrom D) m \<Longrightarrow>
   tasksAll (pinnedFrom D) m'"
proof (induction ts arbitrary: m)
  case Nil
  then show ?case by simp
next
  case (Cons task rest)
  from Cons.prems(1) obtain r0 rs s0 ss where
    r: "regionInfos task = r0 # rs" and s: "AllStores r0 = s0 # ss"
    by (auto split: list.splits)
  let ?t = "\<lparr>storeAddr = storeAddr task, cmdType = cmdType task, ctx = None, regionInfos = [r0]\<rparr>"
  have "pinnedFrom D ?t"
    using Cons.prems(2) r by (auto simp: pinnedFrom_def intro!: bexI [of _ task])
  then have "tasksAll (pinnedFrom D) (AList.update s0 ?t m)"
    using Cons.prems(3) by (rule tasksAll_update [rotated])
  moreover have "initStoreTaskMap rest (AList.update s0 ?t m) = Inr m'"
    using Cons.prems(1) r s by simp
  ultimately show ?case using Cons.IH Cons.prems(2) by simp
qed

lemma sameHead_refl: "regionInfos t \<noteq> [] \<Longrightarrow> sameHead t t"
  by (simp add: sameHead_def)

lemma sameHead_trans: "sameHead a b \<Longrightarrow> sameHead b c \<Longrightarrow> sameHead a c"
  by (auto simp: sameHead_def)

lemma stable_refl [simp]: "stable stm stm"
  by (auto simp: stable_def sameHead_def)

lemma stable_trans:
  assumes "stable a b" and "stable b c"
  shows "stable a c"
  unfolding stable_def
proof (intro allI impI)
  fix k t assume h: "map_of a k = Some t \<and> regionInfos t \<noteq> []"
  with assms(1) obtain t1 where t1: "map_of b k = Some t1" "sameHead t t1"
    unfolding stable_def by blast
  then have "regionInfos t1 \<noteq> []" by (simp add: sameHead_def)
  with assms(2) t1(1) obtain t2 where t2: "map_of c k = Some t2" "sameHead t1 t2"
    unfolding stable_def by blast
  from t1(2) t2(2) have "sameHead t t2" by (rule sameHead_trans)
  with t2(1) show "\<exists>t'. map_of c k = Some t' \<and> sameHead t t'" by blast
qed

lemma stable_append:
  "map_of stm k = Some t \<Longrightarrow>
   stable stm (AList.update k (t\<lparr>regionInfos := regionInfos t @ [ri]\<rparr>) stm)"
  by (auto simp: stable_def update_conv' sameHead_def)

lemma stable_scanRegion:
  "scanRegion rt tid st ri = Continue st' \<Longrightarrow> stable (storeTaskMap st) (storeTaskMap st')"
  by (auto simp: scanRegion_def split: if_splits option.splits intro: stable_append)

lemma stable_scanRegions:
  "scanRegions rt tid i rs st = Continue st' \<Longrightarrow> stable (storeTaskMap st) (storeTaskMap st')"
proof (induction rs arbitrary: i st)
  case Nil
  then show ?case by simp
next
  case (Cons ri rest)
  show ?case
  proof (cases "i = 0")
    case True
    with Cons show ?thesis by simp
  next
    case False
    with Cons.prems obtain st1 where
      a: "scanRegion rt tid st ri = Continue st1" and
      b: "scanRegions rt tid (Suc i) rest st1 = Continue st'"
      by (auto split: flow.splits)
    from stable_scanRegion [OF a] Cons.IH [OF b] show ?thesis by (rule stable_trans)
  qed
qed

lemma stable_scanTasks:
  "scanTasks rt ts st = Continue st' \<Longrightarrow> stable (storeTaskMap st) (storeTaskMap st')"
proof (induction ts arbitrary: st)
  case Nil
  then show ?case by simp
next
  case (Cons t rest)
  from Cons.prems obtain tid st1 where
    a: "scanRegions rt tid 0 (regionInfos t) st = Continue st1" and
    b: "scanTasks rt rest st1 = Continue st'"
    by (auto split: list.splits flow.splits)
  from stable_scanRegions [OF a] Cons.IH [OF b] show ?case by (rule stable_trans)
qed

lemma stable_balanceStep:
  assumes "balanceStep rt st = Inr st'"
  shows "stable (storeTaskMap st) (storeTaskMap st')"
  using balanceStep_stm [OF assms] stable_append by auto

lemma stable_balanceLoop:
  "balanceLoop rt fuel st = Some (Inr st') \<Longrightarrow> stable (storeTaskMap st) (storeTaskMap st')"
proof (induction fuel arbitrary: st)
  case 0
  then show ?case by (auto split: if_splits)
next
  case (Suc n)
  show ?case
  proof (cases "totalCandidateStoreNum st > 0")
    case False
    with Suc.prems show ?thesis by simp
  next
    case True
    with Suc.prems obtain st1 where
      a: "balanceStep rt st = Inr st1" and b: "balanceLoop rt n st1 = Some (Inr st')"
      by (auto split: sum.splits)
    from stable_balanceStep [OF a] Suc.IH [OF b] show ?thesis by (rule stable_trans)
  qed
qed

lemma init_keeps:
  assumes "initStoreTaskMap ts m = Inr m'" and "distinct (map primaryStore ts)"
  shows "(\<forall>d \<in> set ts. \<exists>t. map_of m' (primaryStore d) = Some t \<and> sameHead d t) \<and>
         (\<forall>k. k \<notin> primaryStore ` set ts \<longrightarrow> map_of m' k = map_of m k)"
  using assms
proof (induction ts arbitrary: m)
  case Nil
  then show ?case by simp
next
  case (Cons task rest)
  from Cons.prems(1) obtain r0 rs s0 ss where
    r: "regionInfos task = r0 # rs" and s: "AllStores r0 = s0 # ss"
    by (auto split: list.splits)
  let ?t = "\<lparr>storeAddr = storeAddr task, cmdType = cmdType task, ctx = None, regionInfos = [r0]\<rparr>"
  have p: "primaryStore task = s0" using r s by (simp add: primaryStore_def)
  have i: "initStoreTaskMap rest (AList.update s0 ?t m) = Inr m'"
    using Cons.prems(1) r s by simp
  have d: "distinct (map primaryStore rest)" "s0 \<notin> primaryStore ` set rest"
    using Cons.prems(2) p by auto
  from Cons.IH [OF i d(1)] have
    ih1: "\<forall>d \<in> set rest. \<exists>t. map_of m' (primaryStore d) = Some t \<and> sameHead d t" and
    ih2: "\<forall>k. k \<notin> primaryStore ` set rest \<longrightarrow> map_of m' k = map_of (AList.update s0 ?t m) k"
    by auto
  have "map_of m' s0 = Some ?t" using ih2 d(2) by (simp add: update_conv')
  moreover have "sameHead task ?t" using r by (simp add: sameHead_def)
  ultimately have a: "\<exists>t. map_of m' (primaryStore task) = Some t \<and> sameHead task t"
    using p by auto
  have b: "\<forall>k. k \<notin> primaryStore ` set (task # rest) \<longrightarrow> map_of m' k = map_of m k"
    using ih2 p by (auto simp: update_conv')
  show ?case using a ih1 b by auto
qed

lemma pin_first_region:
  assumes "balanceBatchCopTask rt fuel originalTasks = Some (Inr res)"
  shows "\<forall>t \<in> set res. pinnedFrom originalTasks t"
proof -
  from balance_result [OF assms] obtain stm where
    i: "initStoreTaskMap originalTasks [] = Inr stm" and
    c: "res = originalTasks \<or>
            (\<exists>st st0 st'.
               scanTasks rt originalTasks
                 \<lparr>storeTaskMap = stm, storeCandidateTaskMap = [],
                  totalCandidateStoreNum = 0, totalCandidateCopTaskNum = 0,
                  avgStorePerTask = float64 rt 0, store = MaxUint64,
                  possibleTaskNum = float64 rt 0, rangeCount = 0\<rparr> = Continue st \<and>
               storeTaskMap st0 = storeTaskMap st \<and>
               balanceLoop rt fuel st0 = Some (Inr st') \<and>
               res = map snd (permute (rangeOrder rt (rangeCount st')) (storeTaskMap st')))"
    by blast
  have p0: "tasksAll (pinnedFrom originalTasks) stm"
    using pinned_init [OF i, of originalTasks] by (simp add: tasksAll_def)
  from c show ?thesis
  proof
    assume "res = originalTasks"
    then show ?thesis using init_nonempty [OF i] by (auto simp: pinnedFrom_def)
  next
    assume "\<exists>st st0 st'.
               scanTasks rt originalTasks
                 \<lparr>storeTaskMap = stm, storeCandidateTaskMap = [],
                  totalCandidateStoreNum = 0, totalCandidateCopTaskNum = 0,
                  avgStorePerTask = float64 rt 0, store = MaxUint64,
                  possibleTaskNum = float64 rt 0, rangeCount = 0\<rparr> = Continue st \<and>
               storeTaskMap st0 = storeTaskMap st \<and>
               balanceLoop rt fuel st0 = Some (Inr st') \<and>
               res = map snd (permute (rangeOrder rt (rangeCount st')) (storeTaskMap st'))"
    then obtain st st0 st' where
      sc: "scanTasks rt originalTasks
                 \<lparr>storeTaskMap = stm, storeCandidateTaskMap = [],
                  totalCandidateStoreNum = 0, totalCandidateCopTaskNum = 0,
                  avgStorePerTask = float64 rt 0, store = MaxUint64,
                  possibleTaskNum = float64 rt 0, rangeCount = 0\<rparr> = Continue st" and
      e: "storeTaskMap st0 = storeTaskMap st" and
      l: "balanceLoop rt fuel st0 = Some (Inr st')" and
      r: "res = map snd (permute (rangeOrder rt (rangeCount st')) (storeTaskMap st'))"
      by blast
    have "tasksAll (pinnedFrom originalTasks) (storeTaskMap st)"
      using tasksAll_scanTasks [OF keptByAppend_pinnedFrom sc] p0 by simp
    then have "tasksAll (pinnedFrom originalTasks) (storeTaskMap st')"
      using tasksAll_balanceLoop [OF keptByAppend_pinnedFrom l] e by simp
    then show ?thesis unfolding r by (auto simp: tasksAll_def set_permute)
  qed
qed

lemma pin_kept:
  assumes "balanceBatchCopTask rt fuel originalTasks = Some (Inr res)"
      and "distinct (map primaryStore originalTasks)"
  shows "\<forall>d \<in> set originalTasks. \<exists>t \<in> set res. sameHead d t"
proof -
  from balance_result [OF assms(1)] obtain stm where
    i: "initStoreTaskMap originalTasks [] = Inr stm" and
    c: "res = originalTasks \<or>
            (\<exists>st st0 st'.
               scanTasks rt originalTasks
                 \<lparr>storeTaskMap = stm, storeCandidateTaskMap = [],
                  totalCandidateStoreNum = 0, totalCandidateCopTaskNum = 0,
                  avgStorePerTask = float64 rt 0, store = MaxUint64,
                  possibleTaskNum = float64 rt 0, rangeCount = 0\<rparr> = Continue st \<and>
               storeTaskMap st0 = storeTaskMap st \<and>
               balanceLoop rt fuel st0 = Some (Inr st') \<and>
               res = map snd (permute (rangeOrder rt (rangeCount st')) (storeTaskMap st')))"
    by blast
  have k0: "\<forall>d \<in> set originalTasks. \<exists>t. map_of stm (primaryStore d) = Some t \<and> sameHead d t"
    using init_keeps [OF i assms(2)] by blast
  from c show ?thesis
  proof
    assume "res = originalTasks"
    then show ?thesis using init_nonempty [OF i] by (auto simp: sameHead_def)
  next
    assume "\<exists>st st0 st'.
               scanTasks rt originalTasks
                 \<lparr>storeTaskMap = stm, storeCandidateTaskMap = [],
                  totalCandidateStoreNum = 0, totalCandidateCopTaskNum = 0,
                  avgStorePerTask = float64 rt 0, store = MaxUint64,
                  possibleTaskNum = float64 rt 0, rangeCount = 0\<rparr> = Continue st \<and>
               storeTaskMap st0 = storeTaskMap st \<and>
               balanceLoop rt fuel st0 = Some (Inr st') \<and>
               res = map snd (permute (rangeOrder rt (rangeCount st')) (storeTaskMap st'))"
    then obtain st st0 st' where
      sc: "scanTasks rt originalTasks
                 \<lparr>storeTaskMap = stm, storeCandidateTaskMap = [],
                  totalCandidateStoreNum = 0, totalCandidateCopTaskNum = 0,
                  avgStorePerTask = float64 rt 0, store = MaxUint64,
                  possibleTaskNum = float64 rt 0, rangeCount = 0\<rparr> = Continue st" and
      e: "storeTaskMap st0 = storeTaskMap st" and
      l: "balanceLoop rt fuel st0 = Some (Inr st')" and
      r: "res = map snd (permute (rangeOrder rt (rangeCount st')) (storeTaskMap st'))"
      by blast
    have s1: "stable stm (storeTaskMap st)" using stable_scanTasks [OF sc] by simp
    have "stable (storeTaskMap st) (storeTaskMap st')"
      using stable_balanceLoop [OF l] e by simp
    with s1 have s2: "stable stm (storeTaskMap st')" by (rule stable_trans)
    show ?thesis
    proof
      fix d assume "d \<in> set originalTasks"
      with k0 obtain t where t: "map_of stm (primaryStore d) = Some t" "sameHead d t" by blast
      then have "regionInfos t \<noteq> []" by (simp add: sameHead_def)
      with s2 t(1) obtain t' where
        t': "map_of (storeTaskMap st') (primaryStore d) = Some t'" "sameHead t t'"
        unfolding stable_def by blast
      have "t' \<in> set res"
        unfolding r using map_of_SomeD [OF t'(1)] by (force simp: set_permute)
      moreover have "sameHead d t'" using t(2) t'(2) by (rule sameHead_trans)
      ultimately show "\<exists>t \<in> set res. sameHead d t" by blast
    qed
  qed
qed

text \<open>
  C3 (pin invariant). Whenever the balancer returns, every returned task has as its first
  region the pinned first region of an input draft task, and carries the store address
  and command type of that draft. When the drafts have different primary stores, every
  draft has its task among the returned ones, its pinned region first: the pinned region
  stays on its store. This holds for every \<^verbatim>\<open>float64\<close> arithmetic and every order of
  map iteration.
\<close>

theorem balance_pin:
  assumes "balanceBatchCopTask rt fuel originalTasks = Some (Inr res)"
  shows "(\<forall>t \<in> set res. pinnedFrom originalTasks t) \<and>
         (distinct (map primaryStore originalTasks) \<longrightarrow>
            (\<forall>d \<in> set originalTasks. \<exists>t \<in> set res. sameHead d t))"
  using pin_first_region [OF assms] pin_kept [OF assms] by blast

lemma balance_draftTwoStores:
  "balanceBatchCopTask rt0 (Suc (Suc (Suc 0))) draftTwoStores =
     Some (Inr [tk ''s1'' [reg 1 [1], reg 3 [1, 2]], tk ''s2'' [reg 2 [2], reg 4 [1, 2]]])"
  by (simp add: balanceBatchCopTask_def draftTwoStores_def tk_def reg_def rt0_def
      scanRegion_def validStoreNum_def candLen_def findNextStore_def projected_def
      assignRegion_def balanceStep_def MaxUint64_def Let_def)

theorem balance_pin_witness:
  "balanceBatchCopTask rt0 (Suc (Suc (Suc 0))) draftTwoStores =
     Some (Inr [tk ''s1'' [reg 1 [1], reg 3 [1, 2]], tk ''s2'' [reg 2 [2], reg 4 [1, 2]]]) \<and>
   distinct (map primaryStore draftTwoStores) \<and>
   pinnedFrom draftTwoStores (tk ''s1'' [reg 1 [1], reg 3 [1, 2]]) \<and>
   pinnedFrom draftTwoStores (tk ''s2'' [reg 2 [2], reg 4 [1, 2]]) \<and>
   (\<exists>t \<in> set [tk ''s1'' [reg 1 [1], reg 3 [1, 2]], tk ''s2'' [reg 2 [2], reg 4 [1, 2]]].
      sameHead (tk ''s1'' [reg 1 [1], reg 3 [1, 2], reg 4 [1, 2]]) t)"
proof -
  have d: "distinct (map primaryStore draftTwoStores)"
    by (simp add: draftTwoStores_def primaryStore_def tk_def reg_def)
  have m: "tk ''s1'' [reg 1 [1], reg 3 [1, 2], reg 4 [1, 2]] \<in> set draftTwoStores"
    by (simp add: draftTwoStores_def)
  from balance_pin [OF balance_draftTwoStores] balance_draftTwoStores d m show ?thesis
    by simp
qed

text \<open>
  The balancer does not copy \<^verbatim>\<open>ctx\<close> into the tasks it makes (lines 108-112): when it
  returns anything but the drafts themselves, every returned task has a nil \<^verbatim>\<open>ctx\<close>.
\<close>

lemma ctx_init:
  "initStoreTaskMap ts m = Inr m' \<Longrightarrow> tasksAll (\<lambda>t. ctx t = None) m \<Longrightarrow>
   tasksAll (\<lambda>t. ctx t = None) m'"
proof (induction ts arbitrary: m)
  case Nil
  then show ?case by simp
next
  case (Cons task rest)
  from Cons.prems(1) obtain r0 rs s0 ss where
    r: "regionInfos task = r0 # rs" and s: "AllStores r0 = s0 # ss"
    by (auto split: list.splits)
  let ?t = "\<lparr>storeAddr = storeAddr task, cmdType = cmdType task, ctx = None, regionInfos = [r0]\<rparr>"
  have "tasksAll (\<lambda>t. ctx t = None) (AList.update s0 ?t m)"
    using Cons.prems(2) by (rule tasksAll_update) simp
  moreover have "initStoreTaskMap rest (AList.update s0 ?t m) = Inr m'"
    using Cons.prems(1) r s by simp
  ultimately show ?case using Cons.IH by simp
qed

theorem balance_forgets_ctx:
  assumes "balanceBatchCopTask rt fuel originalTasks = Some (Inr res)"
  shows "res = originalTasks \<or> (\<forall>t \<in> set res. ctx t = None)"
proof -
  have k: "keptByAppend (\<lambda>t. ctx t = None)" by (simp add: keptByAppend_def)
  from balance_result [OF assms] obtain stm where
    i: "initStoreTaskMap originalTasks [] = Inr stm" and
    c: "res = originalTasks \<or>
            (\<exists>st st0 st'.
               scanTasks rt originalTasks
                 \<lparr>storeTaskMap = stm, storeCandidateTaskMap = [],
                  totalCandidateStoreNum = 0, totalCandidateCopTaskNum = 0,
                  avgStorePerTask = float64 rt 0, store = MaxUint64,
                  possibleTaskNum = float64 rt 0, rangeCount = 0\<rparr> = Continue st \<and>
               storeTaskMap st0 = storeTaskMap st \<and>
               balanceLoop rt fuel st0 = Some (Inr st') \<and>
               res = map snd (permute (rangeOrder rt (rangeCount st')) (storeTaskMap st')))"
    by blast
  have p0: "tasksAll (\<lambda>t. ctx t = None) stm"
    using ctx_init [OF i] by (simp add: tasksAll_def)
  from c show ?thesis
  proof
    assume "res = originalTasks"
    then show ?thesis by simp
  next
    assume "\<exists>st st0 st'.
               scanTasks rt originalTasks
                 \<lparr>storeTaskMap = stm, storeCandidateTaskMap = [],
                  totalCandidateStoreNum = 0, totalCandidateCopTaskNum = 0,
                  avgStorePerTask = float64 rt 0, store = MaxUint64,
                  possibleTaskNum = float64 rt 0, rangeCount = 0\<rparr> = Continue st \<and>
               storeTaskMap st0 = storeTaskMap st \<and>
               balanceLoop rt fuel st0 = Some (Inr st') \<and>
               res = map snd (permute (rangeOrder rt (rangeCount st')) (storeTaskMap st'))"
    then obtain st st0 st' where
      sc: "scanTasks rt originalTasks
                 \<lparr>storeTaskMap = stm, storeCandidateTaskMap = [],
                  totalCandidateStoreNum = 0, totalCandidateCopTaskNum = 0,
                  avgStorePerTask = float64 rt 0, store = MaxUint64,
                  possibleTaskNum = float64 rt 0, rangeCount = 0\<rparr> = Continue st" and
      e: "storeTaskMap st0 = storeTaskMap st" and
      l: "balanceLoop rt fuel st0 = Some (Inr st')" and
      r: "res = map snd (permute (rangeOrder rt (rangeCount st')) (storeTaskMap st'))"
      by blast
    have "tasksAll (\<lambda>t. ctx t = None) (storeTaskMap st)"
      using tasksAll_scanTasks [OF k sc] p0 by simp
    then have "tasksAll (\<lambda>t. ctx t = None) (storeTaskMap st')"
      using tasksAll_balanceLoop [OF k l] e by simp
    then have "\<forall>t \<in> set res. ctx t = None"
      unfolding r by (auto simp: tasksAll_def set_permute)
    then show ?thesis by simp
  qed
qed

theorem balance_forgets_ctx_witness:
  "balanceBatchCopTask rt0 (Suc (Suc (Suc 0))) draftWithCtx =
     Some (Inr [tk ''s1'' [reg 1 [1], reg 3 [1, 2]], tk ''s2'' [reg 2 [2], reg 4 [1, 2]]]) \<and>
   [tk ''s1'' [reg 1 [1], reg 3 [1, 2]], tk ''s2'' [reg 2 [2], reg 4 [1, 2]]] \<noteq> draftWithCtx \<and>
   ctx (tk ''s1'' [reg 1 [1], reg 3 [1, 2]]) = None \<and>
   ctx (tk ''s2'' [reg 2 [2], reg 4 [1, 2]]) = None"
proof -
  have e: "balanceBatchCopTask rt0 (Suc (Suc (Suc 0))) draftWithCtx =
     Some (Inr [tk ''s1'' [reg 1 [1], reg 3 [1, 2]], tk ''s2'' [reg 2 [2], reg 4 [1, 2]]])"
    by (simp add: balanceBatchCopTask_def draftWithCtx_def tk_def reg_def rt0_def
      scanRegion_def validStoreNum_def candLen_def findNextStore_def projected_def
      assignRegion_def balanceStep_def MaxUint64_def Let_def)
  have n: "[tk ''s1'' [reg 1 [1], reg 3 [1, 2]], tk ''s2'' [reg 2 [2], reg 4 [1, 2]]] \<noteq> draftWithCtx"
    by (simp add: draftWithCtx_def tk_def)
  from balance_forgets_ctx [OF e] e n show ?thesis by simp
qed

text \<open>
  A worker that is given a task with a nil \<^verbatim>\<open>ctx\<close> panics when it sends the request:
  \<^verbatim>\<open>SendReqToAddr\<close> reads \<^verbatim>\<open>rpcCtx.Meta\<close> first (batch_request_sender.go, line 51).
\<close>

theorem handleTaskOnce_nil_ctx:
  "handleTaskOnce env fuel req w (task\<lparr>ctx := None\<rparr>) = Some (Inl NilDereference, w)"
  by (simp add: handleTaskOnce_def SendReqToAddr_def)

section \<open>The duplicate guard\<close>

lemma candKeys_update_Some:
  "map_of c s = Some m \<Longrightarrow>
   candKeys (AList.update s (AList.update k ri m) c) = insert (s, k) (candKeys c)"
  by (auto simp: candKeys_def update_conv' split: if_splits)

lemma candKeys_update_None:
  "map_of c s = None \<Longrightarrow> candKeys (AList.update s [(k, ri)] c) = insert (s, k) (candKeys c)"
  by (auto simp: candKeys_def update_conv' split: if_splits)

lemma putCandidate_Some:
  "putCandidate k ri ss c = Some c' \<Longrightarrow>
   distinct ss \<and> (\<forall>s \<in> set ss. (s, k) \<notin> candKeys c) \<and>
   candKeys c' = candKeys c \<union> (\<lambda>s. (s, k)) ` set ss"
proof (induction ss arbitrary: c)
  case Nil
  then show ?case by simp
next
  case (Cons s rest)
  show ?case
  proof (cases "map_of c s")
    case None
    let ?c1 = "AList.update s [(k, ri)] c"
    from Cons.prems None have "putCandidate k ri rest ?c1 = Some c'" by simp
    from Cons.IH [OF this] have ih: "distinct rest" "\<forall>s' \<in> set rest. (s', k) \<notin> candKeys ?c1"
      "candKeys c' = candKeys ?c1 \<union> (\<lambda>s. (s, k)) ` set rest" by auto
    have k1: "candKeys ?c1 = insert (s, k) (candKeys c)" by (rule candKeys_update_None [OF None])
    have "(s, k) \<notin> candKeys c" using None by (simp add: candKeys_def)
    then show ?thesis using ih k1 by auto
  next
    case (Some m)
    with Cons.prems have mk: "map_of m k = None" by (auto split: if_splits)
    let ?c1 = "AList.update s (AList.update k ri m) c"
    from Cons.prems Some mk have "putCandidate k ri rest ?c1 = Some c'" by simp
    from Cons.IH [OF this] have ih: "distinct rest" "\<forall>s' \<in> set rest. (s', k) \<notin> candKeys ?c1"
      "candKeys c' = candKeys ?c1 \<union> (\<lambda>s. (s, k)) ` set rest" by auto
    have k1: "candKeys ?c1 = insert (s, k) (candKeys c)" by (rule candKeys_update_Some [OF Some])
    have "(s, k) \<notin> candKeys c" using Some mk by (simp add: candKeys_def)
    then show ?thesis using ih k1 by auto
  qed
qed

lemma validStoreNum_keys:
  "fst ` set stm = fst ` set stm' \<Longrightarrow> validStoreNum stm ri = validStoreNum stm' ri"
proof -
  assume "fst ` set stm = fst ` set stm'"
  then have "\<And>s. (map_of stm s \<noteq> None) = (map_of stm' s \<noteq> None)"
    by (simp add: map_of_eq_None_iff)
  then show ?thesis by (simp add: validStoreNum_def)
qed

lemma keys_update_present:
  "map_of al k = Some v \<Longrightarrow> fst ` set (AList.update k v' al) = fst ` set al"
  by (auto simp: dom_update dest: map_of_SomeD intro: rev_image_eqI)

lemma scanRegion_inserts:
  assumes "scanRegion rt tid st ri = Continue st'"
      and "fst ` set (storeTaskMap st) = fst ` set stm"
  shows "distinct (regionInserts rt stm ri) \<and>
         set (regionInserts rt stm ri) \<inter> candKeys (storeCandidateTaskMap st) = {} \<and>
         candKeys (storeCandidateTaskMap st') =
           candKeys (storeCandidateTaskMap st) \<union> set (regionInserts rt stm ri) \<and>
         fst ` set (storeTaskMap st') = fst ` set stm"
proof (cases "validStoreNum (storeTaskMap st) ri = 1")
  case True
  then have "regionInserts rt stm ri = []"
    using validStoreNum_keys [OF assms(2), of ri] by (simp add: regionInserts_def)
  moreover from assms(1) True obtain t where
    t: "map_of (storeTaskMap st) tid = Some t" and
    st': "st' = st\<lparr>storeTaskMap :=
               AList.update tid (t\<lparr>regionInfos := regionInfos t @ [ri]\<rparr>) (storeTaskMap st)\<rparr>"
    by (auto simp: scanRegion_def split: option.splits)
  moreover have "fst ` set (storeTaskMap st') = fst ` set stm"
    unfolding st' using keys_update_present [OF t] assms(2) by simp
  ultimately show ?thesis by simp
next
  case False
  let ?k = "String_of rt (Region ri)"
  from assms(1) False obtain c where
    pc: "putCandidate ?k ri (AllStores ri) (storeCandidateTaskMap st) = Some c" and
    st': "storeCandidateTaskMap st' = c" "storeTaskMap st' = storeTaskMap st"
    by (auto simp: scanRegion_def split: option.splits)
  have ins: "regionInserts rt stm ri = map (\<lambda>s. (s, ?k)) (AllStores ri)"
    using False validStoreNum_keys [OF assms(2), of ri] by (simp add: regionInserts_def)
  from putCandidate_Some [OF pc] show ?thesis
    using st' assms(2) by (auto simp: ins distinct_map inj_on_def)
qed

lemma scanRegion_no_panic:
  "map_of (storeTaskMap st) tid \<noteq> None \<Longrightarrow> scanRegion rt tid st ri \<noteq> Panic p"
  by (auto simp: scanRegion_def split: option.splits)

lemma scanRegions_inserts:
  assumes "scanRegions rt tid i rs st = Continue st'"
      and "fst ` set (storeTaskMap st) = fst ` set stm" and "i > 0"
  shows "distinct (concat (map (regionInserts rt stm) rs)) \<and>
         set (concat (map (regionInserts rt stm) rs)) \<inter> candKeys (storeCandidateTaskMap st) = {} \<and>
         candKeys (storeCandidateTaskMap st') =
           candKeys (storeCandidateTaskMap st) \<union> set (concat (map (regionInserts rt stm) rs)) \<and>
         fst ` set (storeTaskMap st') = fst ` set stm"
  using assms
proof (induction rs arbitrary: i st)
  case Nil
  then show ?case by simp
next
  case (Cons ri rest)
  from Cons.prems obtain st1 where
    s1: "scanRegion rt tid st ri = Continue st1" and
    s2: "scanRegions rt tid (Suc i) rest st1 = Continue st'"
    by (auto split: flow.splits)
  note a = scanRegion_inserts [OF s1 Cons.prems(2)]
  from a have k1: "fst ` set (storeTaskMap st1) = fst ` set stm" by simp
  note b = Cons.IH [OF s2 k1]
  show ?case using a b by auto
qed

lemma scanRegions_no_panic:
  "map_of (storeTaskMap st) tid \<noteq> None \<Longrightarrow> i > 0 \<Longrightarrow> scanRegions rt tid i rs st \<noteq> Panic p"
proof (induction rs arbitrary: i st)
  case Nil
  then show ?case by simp
next
  case (Cons ri rest)
  show ?case
  proof (cases "scanRegion rt tid st ri")
    case (Continue st1)
    have "fst ` set (storeTaskMap st1) = fst ` set (storeTaskMap st)"
      using scanRegion_inserts [OF Continue refl] by simp
    then have "map_of (storeTaskMap st1) tid \<noteq> None"
      using Cons.prems(1) by (simp add: map_of_eq_None_iff)
    from Cons.IH [OF this] show ?thesis using Continue Cons.prems(2) by simp
  next
    case ReturnOriginal
    then show ?thesis using Cons.prems(2) by simp
  next
    case (Panic q)
    then show ?thesis using scanRegion_no_panic [OF Cons.prems(1)] by simp
  qed
qed

lemma scanTasks_inserts:
  assumes "scanTasks rt ts st = Continue st'"
      and "fst ` set (storeTaskMap st) = fst ` set stm"
  shows "distinct (candidateInserts rt stm ts) \<and>
         set (candidateInserts rt stm ts) \<inter> candKeys (storeCandidateTaskMap st) = {} \<and>
         candKeys (storeCandidateTaskMap st') =
           candKeys (storeCandidateTaskMap st) \<union> set (candidateInserts rt stm ts) \<and>
         fst ` set (storeTaskMap st') = fst ` set stm"
  using assms
proof (induction ts arbitrary: st)
  case Nil
  then show ?case by (simp add: candidateInserts_def)
next
  case (Cons task rest)
  from Cons.prems(1) obtain r0 rs s0 ss st1 where
    r: "regionInfos task = r0 # rs" and s: "AllStores r0 = s0 # ss" and
    s1: "scanRegions rt s0 (Suc 0) rs st = Continue st1" and
    s2: "scanTasks rt rest st1 = Continue st'"
    by (auto split: list.splits flow.splits)
  note a = scanRegions_inserts [OF s1 Cons.prems(2)]
  from a have k1: "fst ` set (storeTaskMap st1) = fst ` set stm" by simp
  note b = Cons.IH [OF s2 k1]
  have ci: "candidateInserts rt stm (task # rest) =
            concat (map (regionInserts rt stm) rs) @ candidateInserts rt stm rest"
    by (simp add: candidateInserts_def r)
  show ?case unfolding ci using a b by auto
qed

lemma primaryStores_Cons:
  "regionInfos task = r0 # rs \<Longrightarrow> AllStores r0 = s0 # ss \<Longrightarrow>
   primaryStores (task # rest) = insert s0 (primaryStores rest)"
  by (simp add: primaryStores_def)

lemma init_keys:
  "initStoreTaskMap ts m = Inr m' \<Longrightarrow> fst ` set m' = fst ` set m \<union> primaryStores ts"
proof (induction ts arbitrary: m)
  case Nil
  then show ?case by (simp add: primaryStores_def)
next
  case (Cons task rest)
  from Cons.prems(1) obtain r0 rs s0 ss where
    r: "regionInfos task = r0 # rs" and s: "AllStores r0 = s0 # ss"
    by (auto split: list.splits)
  let ?t = "\<lparr>storeAddr = storeAddr task, cmdType = cmdType task, ctx = None, regionInfos = [r0]\<rparr>"
  have "initStoreTaskMap rest (AList.update s0 ?t m) = Inr m'"
    using Cons.prems(1) r s by simp
  from Cons.IH [OF this] have "fst ` set m' = insert s0 (fst ` set m) \<union> primaryStores rest"
    by (simp add: dom_update)
  moreover have "primaryStores (task # rest) = insert s0 (primaryStores rest)"
    using r s by (rule primaryStores_Cons)
  ultimately show ?case by auto
qed

lemma scanTasks_no_panic:
  "primaryStores ts \<subseteq> fst ` set (storeTaskMap st) \<Longrightarrow> \<forall>t \<in> set ts. regionInfos t \<noteq> [] \<and> AllStores (hd (regionInfos t)) \<noteq> [] \<Longrightarrow>
   scanTasks rt ts st \<noteq> Panic p"
proof (induction ts arbitrary: st)
  case Nil
  then show ?case by simp
next
  case (Cons task rest)
  from Cons.prems(2) obtain r0 rs s0 ss where
    r: "regionInfos task = r0 # rs" and s: "AllStores r0 = s0 # ss"
    by (cases "regionInfos task"; cases "AllStores (hd (regionInfos task))") auto
  have ps: "primaryStores (task # rest) = insert s0 (primaryStores rest)"
    using r s by (rule primaryStores_Cons)
  then have "s0 \<in> primaryStores (task # rest)" by simp
  then have m: "map_of (storeTaskMap st) s0 \<noteq> None"
    using Cons.prems(1) by (auto simp: map_of_eq_None_iff)
  have sub: "primaryStores rest \<subseteq> primaryStores (task # rest)" using ps by auto
  show ?case
  proof (cases "scanRegions rt s0 (Suc 0) rs st")
    case (Continue st1)
    have "fst ` set (storeTaskMap st1) = fst ` set (storeTaskMap st)"
      using scanRegions_inserts [OF Continue refl] by simp
    then have "primaryStores rest \<subseteq> fst ` set (storeTaskMap st1)"
      using Cons.prems(1) sub by auto
    from Cons.IH [OF this] show ?thesis using Continue r s Cons.prems(2) by simp
  next
    case ReturnOriginal
    then show ?thesis using r s by simp
  next
    case (Panic q)
    then show ?thesis using scanRegions_no_panic [OF m, of "Suc 0" rt rs] by simp
  qed
qed

lemma init_wellformed:
  "initStoreTaskMap ts m = Inr m' \<Longrightarrow>
   \<forall>t \<in> set ts. regionInfos t \<noteq> [] \<and> AllStores (hd (regionInfos t)) \<noteq> []"
  by (induction ts arbitrary: m) (auto split: list.splits)

text \<open>
  C4 (duplicate-region bailout). When the scan of a draft list (one on which lines 107-114
  do not panic) would put the same region key twice into the candidate map of some
  store, that is, when the list of its insertions (store, key) has a repetition, the
  balancer returns \<^verbatim>\<open>originalTasks\<close>: the draft list itself, unchanged.
\<close>

theorem balance_duplicate_identity:
  assumes "initStoreTaskMap originalTasks [] = Inr stm"
      and "\<not> distinct (candidateInserts rt stm originalTasks)"
  shows "balanceBatchCopTask rt fuel originalTasks = Some (Inr originalTasks)"
proof -
  let ?st = "\<lparr>storeTaskMap = stm, storeCandidateTaskMap = [],
                   totalCandidateStoreNum = 0, totalCandidateCopTaskNum = 0,
                   avgStorePerTask = float64 rt 0, store = MaxUint64,
                   possibleTaskNum = float64 rt 0, rangeCount = 0\<rparr>"
  have keys: "primaryStores originalTasks \<subseteq> fst ` set (storeTaskMap ?st)"
    using init_keys [OF assms(1)] by simp
  have "scanTasks rt originalTasks ?st = ReturnOriginal"
  proof (cases "scanTasks rt originalTasks ?st")
    case (Continue st')
    have "fst ` set (storeTaskMap ?st) = fst ` set stm" by simp
    from scanTasks_inserts [OF Continue this] assms(2) show ?thesis by simp
  next
    case ReturnOriginal
    then show ?thesis .
  next
    case (Panic p)
    then show ?thesis
      using scanTasks_no_panic [OF keys init_wellformed [OF assms(1)]] by simp
  qed
  then show ?thesis using assms(1) by (simp add: balanceBatchCopTask_def)
qed


theorem balance_duplicate_identity_witness:
  "initStoreTaskMap draftDuplicate [] = Inr (storeTaskMap stateTwoStores) \<and>
   \<not> distinct (candidateInserts rt0 (storeTaskMap stateTwoStores) draftDuplicate) \<and>
   balanceBatchCopTask rt0 0 draftDuplicate = Some (Inr draftDuplicate)"
proof -
  have i: "initStoreTaskMap draftDuplicate [] = Inr (storeTaskMap stateTwoStores)"
    by (simp add: draftDuplicate_def stateTwoStores_def tk_def reg_def)
  have d: "\<not> distinct (candidateInserts rt0 (storeTaskMap stateTwoStores) draftDuplicate)"
    by (simp add: candidateInserts_def regionInserts_def validStoreNum_def draftDuplicate_def
        stateTwoStores_def tk_def reg_def rt0_def)
  from balance_duplicate_identity [OF i d] i d show ?thesis by simp
qed

section \<open>Regions with a single valid store\<close>

lemma validStoreNum_single:
  assumes "card (validStores stm ri) = 1" and "distinct (AllStores ri)"
  shows "validStoreNum stm ri = 1"
proof -
  let ?f = "filter (\<lambda>s. map_of stm s \<noteq> None) (AllStores ri)"
  have d: "distinct ?f" using assms(2) by simp
  have s: "set ?f = validStores stm ri" by (auto simp: validStores_def)
  have "length ?f = card (set ?f)" using distinct_card [OF d] by simp
  then have "length ?f = 1" using s assms(1) by simp
  then show ?thesis by (simp add: validStoreNum_def)
qed

lemma grows_refl [simp]: "grows stm stm"
  by (auto simp: grows_def)

lemma grows_trans:
  assumes "grows a b" and "grows b c"
  shows "grows a c"
  unfolding grows_def
proof (intro allI impI)
  fix k t assume "map_of a k = Some t"
  with assms(1) obtain t1 m1 where t1: "map_of b k = Some t1" "regionInfos t1 = regionInfos t @ m1"
    unfolding grows_def by blast
  with assms(2) obtain t2 m2 where t2: "map_of c k = Some t2" "regionInfos t2 = regionInfos t1 @ m2"
    unfolding grows_def by blast
  have "regionInfos t2 = regionInfos t @ (m1 @ m2)" using t1(2) t2(2) by simp
  with t2(1) show "\<exists>t' more. map_of c k = Some t' \<and> regionInfos t' = regionInfos t @ more"
    by blast
qed

lemma grows_append:
  "map_of stm k = Some t \<Longrightarrow>
   grows stm (AList.update k (t\<lparr>regionInfos := regionInfos t @ [ri]\<rparr>) stm)"
  by (auto simp: grows_def update_conv')

lemma grows_scanRegion:
  "scanRegion rt tid st ri = Continue st' \<Longrightarrow> grows (storeTaskMap st) (storeTaskMap st')"
  by (auto simp: scanRegion_def split: if_splits option.splits intro: grows_append)

lemma grows_scanRegions:
  "scanRegions rt tid i rs st = Continue st' \<Longrightarrow> grows (storeTaskMap st) (storeTaskMap st')"
proof (induction rs arbitrary: i st)
  case Nil
  then show ?case by simp
next
  case (Cons ri rest)
  show ?case
  proof (cases "i = 0")
    case True
    with Cons show ?thesis by simp
  next
    case False
    with Cons.prems obtain st1 where
      a: "scanRegion rt tid st ri = Continue st1" and
      b: "scanRegions rt tid (Suc i) rest st1 = Continue st'"
      by (auto split: flow.splits)
    from grows_scanRegion [OF a] Cons.IH [OF b] show ?thesis by (rule grows_trans)
  qed
qed

lemma grows_scanTasks:
  "scanTasks rt ts st = Continue st' \<Longrightarrow> grows (storeTaskMap st) (storeTaskMap st')"
proof (induction ts arbitrary: st)
  case Nil
  then show ?case by simp
next
  case (Cons t rest)
  from Cons.prems obtain tid st1 where
    a: "scanRegions rt tid 0 (regionInfos t) st = Continue st1" and
    b: "scanTasks rt rest st1 = Continue st'"
    by (auto split: list.splits flow.splits)
  from grows_scanRegions [OF a] Cons.IH [OF b] show ?case by (rule grows_trans)
qed

lemma grows_balanceStep:
  "balanceStep rt st = Inr st' \<Longrightarrow> grows (storeTaskMap st) (storeTaskMap st')"
  using balanceStep_stm [of rt st st'] by (auto intro: grows_append)

lemma grows_balanceLoop:
  "balanceLoop rt fuel st = Some (Inr st') \<Longrightarrow> grows (storeTaskMap st) (storeTaskMap st')"
proof (induction fuel arbitrary: st)
  case 0
  then show ?case by (auto split: if_splits)
next
  case (Suc n)
  show ?case
  proof (cases "totalCandidateStoreNum st > 0")
    case False
    with Suc.prems show ?thesis by simp
  next
    case True
    with Suc.prems obtain st1 where
      a: "balanceStep rt st = Inr st1" and b: "balanceLoop rt n st1 = Some (Inr st')"
      by (auto split: sum.splits)
    from grows_balanceStep [OF a] Suc.IH [OF b] show ?thesis by (rule grows_trans)
  qed
qed

lemma scanRegions_append:
  "scanRegions rt tid i (xs @ ys) st =
     (case scanRegions rt tid i xs st of
        Continue st' \<Rightarrow> scanRegions rt tid (i + length xs) ys st'
      | ReturnOriginal \<Rightarrow> ReturnOriginal
      | Panic p \<Rightarrow> Panic p)"
  by (induction xs arbitrary: i st) (auto split: flow.splits)

lemma scanTasks_append:
  "scanTasks rt (xs @ ys) st =
     (case scanTasks rt xs st of
        Continue st' \<Rightarrow> scanTasks rt ys st'
      | ReturnOriginal \<Rightarrow> ReturnOriginal
      | Panic p \<Rightarrow> Panic p)"
  by (induction xs arbitrary: st) (auto split: flow.splits list.splits)

lemma validStores_keys:
  "fst ` set stm = fst ` set stm' \<Longrightarrow> validStores stm ri = validStores stm' ri"
proof -
  assume "fst ` set stm = fst ` set stm'"
  then have "\<And>s. (map_of stm s \<noteq> None) = (map_of stm' s \<noteq> None)"
    by (simp add: map_of_eq_None_iff)
  then show ?thesis by (simp add: validStores_def)
qed

lemma init_primary:
  "initStoreTaskMap ts m = Inr m' \<Longrightarrow>
   (\<forall>k t. map_of m k = Some t \<longrightarrow> (\<exists>r. regionInfos t = [r] \<and> hd (AllStores r) = k)) \<Longrightarrow>
   (\<forall>k t. map_of m' k = Some t \<longrightarrow> (\<exists>r. regionInfos t = [r] \<and> hd (AllStores r) = k))"
proof (induction ts arbitrary: m)
  case Nil
  then show ?case by simp
next
  case (Cons task rest)
  from Cons.prems(1) obtain r0 rs s0 ss where
    r: "regionInfos task = r0 # rs" and s: "AllStores r0 = s0 # ss"
    by (auto split: list.splits)
  let ?t = "\<lparr>storeAddr = storeAddr task, cmdType = cmdType task, ctx = None, regionInfos = [r0]\<rparr>"
  have i: "initStoreTaskMap rest (AList.update s0 ?t m) = Inr m'"
    using Cons.prems(1) r s by simp
  have "\<forall>k t. map_of (AList.update s0 ?t m) k = Some t \<longrightarrow>
          (\<exists>r. regionInfos t = [r] \<and> hd (AllStores r) = k)"
    using Cons.prems(2) s by (auto simp: update_conv')
  from Cons.IH [OF i this] show ?case .
qed


lemma scan_reaches_single:
  assumes init: "initStoreTaskMap originalTasks [] = Inr stm"
      and tasks: "originalTasks = pre @ task # post"
      and regs: "regionInfos task = r0 # before @ ri # after"
      and single: "card (validStores stm ri) = 1"
      and dist: "distinct (AllStores ri)"
      and own: "primaryStore task \<in> set (AllStores ri)"
  shows "map_of stm (primaryStore task) \<noteq> None"
    and "validStores stm ri = {primaryStore task}"
    and "scanTasks rt pre (scanStart rt stm) = Continue st1 \<Longrightarrow>
         scanRegions rt (primaryStore task) (Suc 0) before st1 = Continue st \<Longrightarrow>
         validStores (storeTaskMap st) ri = {primaryStore task} \<and>
         map_of (storeTaskMap st) (primaryStore task) \<noteq> None \<and>
         scanRegion rt (primaryStore task) st ri = Continue (appendTo (primaryStore task) ri st) \<and>
         scanTasks rt originalTasks (scanStart rt stm) =
           (case scanRegions rt (primaryStore task) (Suc (Suc (length before))) after
                   (appendTo (primaryStore task) ri st) of
              Continue st' \<Rightarrow> scanTasks rt post st'
            | ReturnOriginal \<Rightarrow> ReturnOriginal
            | Panic p \<Rightarrow> Panic p)"
proof -
  have mem: "task \<in> set originalTasks" using tasks by simp
  from init_wellformed [OF init] mem regs have "AllStores r0 \<noteq> []" by auto
  then obtain ss where s: "AllStores r0 = primaryStore task # ss"
    using regs by (cases "AllStores r0") (auto simp: primaryStore_def)
  have "primaryStore task \<in> primaryStores originalTasks"
    using tasks regs s by (simp add: primaryStores_def)
  then have k: "primaryStore task \<in> fst ` set stm" using init_keys [OF init] by simp
  then show m: "map_of stm (primaryStore task) \<noteq> None" by (simp add: map_of_eq_None_iff)
  then have "primaryStore task \<in> validStores stm ri" using own by (simp add: validStores_def)
  moreover obtain x where "validStores stm ri = {x}"
    using single by (auto simp: card_1_singleton_iff)
  ultimately show v: "validStores stm ri = {primaryStore task}" by auto
  assume pre: "scanTasks rt pre (scanStart rt stm) = Continue st1"
     and bef: "scanRegions rt (primaryStore task) (Suc 0) before st1 = Continue st"
  have "fst ` set (storeTaskMap (scanStart rt stm)) = fst ` set stm" by (simp add: scanStart_def)
  from scanTasks_inserts [OF pre this] have k1: "fst ` set (storeTaskMap st1) = fst ` set stm"
    by simp
  from scanRegions_inserts [OF bef k1] have k2: "fst ` set (storeTaskMap st) = fst ` set stm"
    by simp
  have v2: "validStores (storeTaskMap st) ri = {primaryStore task}"
    using validStores_keys [OF k2, of ri] v by simp
  have "primaryStore task \<in> fst ` set (storeTaskMap st)" using k k2 by simp
  then have m2: "map_of (storeTaskMap st) (primaryStore task) \<noteq> None"
    by (simp add: map_of_eq_None_iff)
  have n: "validStoreNum (storeTaskMap st) ri = 1"
    using validStoreNum_single [of "storeTaskMap st" ri] v2 dist by simp
  have step: "scanRegion rt (primaryStore task) st ri =
                Continue (appendTo (primaryStore task) ri st)"
    using n m2 by (auto simp: scanRegion_def appendTo_def)
  have "scanRegions rt (primaryStore task) 0 (regionInfos task) st1 =
          scanRegions rt (primaryStore task) (Suc (Suc (length before))) after
            (appendTo (primaryStore task) ri st)"
    using bef step by (simp add: regs scanRegions_append)
  then have "scanTasks rt originalTasks (scanStart rt stm) =
           (case scanRegions rt (primaryStore task) (Suc (Suc (length before))) after
                   (appendTo (primaryStore task) ri st) of
              Continue st' \<Rightarrow> scanTasks rt post st'
            | ReturnOriginal \<Rightarrow> ReturnOriginal
            | Panic p \<Rightarrow> Panic p)"
    using pre s by (simp add: tasks scanTasks_append regs)
  with v2 m2 step show "validStores (storeTaskMap st) ri = {primaryStore task} \<and>
         map_of (storeTaskMap st) (primaryStore task) \<noteq> None \<and>
         scanRegion rt (primaryStore task) st ri = Continue (appendTo (primaryStore task) ri st) \<and>
         scanTasks rt originalTasks (scanStart rt stm) =
           (case scanRegions rt (primaryStore task) (Suc (Suc (length before))) after
                   (appendTo (primaryStore task) ri st) of
              Continue st' \<Rightarrow> scanTasks rt post st'
            | ReturnOriginal \<Rightarrow> ReturnOriginal
            | Panic p \<Rightarrow> Panic p)"
    by blast
qed

lemma balance_has_single:
  assumes init: "initStoreTaskMap originalTasks [] = Inr stm"
      and tasks: "originalTasks = pre @ task # post"
      and regs: "regionInfos task = r0 # before @ ri # after"
      and single: "card (validStores stm ri) = 1"
      and dist: "distinct (AllStores ri)"
      and own: "primaryStore task \<in> set (AllStores ri)"
      and res: "balanceBatchCopTask rt fuel originalTasks = Some (Inr res)"
  shows "\<exists>t \<in> set res. primaryStore t = primaryStore task \<and> ri \<in> set (tl (regionInfos t))"
proof -
  let ?tid = "primaryStore task"
  from balance_result [OF res] init have
    "res = originalTasks \<or>
     (\<exists>st st0 st'. scanTasks rt originalTasks (scanStart rt stm) = Continue st \<and>
        storeTaskMap st0 = storeTaskMap st \<and> balanceLoop rt fuel st0 = Some (Inr st') \<and>
        res = map snd (permute (rangeOrder rt (rangeCount st')) (storeTaskMap st')))"
    by (simp add: scanStart_def)
  then show ?thesis
  proof
    assume "res = originalTasks"
    then have "task \<in> set res" using tasks by simp
    moreover have "ri \<in> set (tl (regionInfos task))" using regs by simp
    ultimately show ?thesis by blast
  next
    assume "\<exists>st st0 st'. scanTasks rt originalTasks (scanStart rt stm) = Continue st \<and>
        storeTaskMap st0 = storeTaskMap st \<and> balanceLoop rt fuel st0 = Some (Inr st') \<and>
        res = map snd (permute (rangeOrder rt (rangeCount st')) (storeTaskMap st'))"
    then obtain stS st0 st' where
      scan: "scanTasks rt originalTasks (scanStart rt stm) = Continue stS" and
      eq: "storeTaskMap st0 = storeTaskMap stS" and
      loop: "balanceLoop rt fuel st0 = Some (Inr st')" and
      r: "res = map snd (permute (rangeOrder rt (rangeCount st')) (storeTaskMap st'))"
      by blast
    have mem: "task \<in> set originalTasks" using tasks by simp
    from init_wellformed [OF init] mem regs have "AllStores r0 \<noteq> []" by auto
    then obtain ss where s: "AllStores r0 = ?tid # ss"
      using regs by (cases "AllStores r0") (auto simp: primaryStore_def)
    from scan obtain st1 where
      pre: "scanTasks rt pre (scanStart rt stm) = Continue st1" and
      rest: "scanTasks rt (task # post) st1 = Continue stS"
      unfolding tasks scanTasks_append by (auto split: flow.splits)
    from rest obtain stA where
      a: "scanRegions rt ?tid (Suc 0) (before @ ri # after) st1 = Continue stA" and
      b: "scanTasks rt post stA = Continue stS"
      using regs s by (auto split: flow.splits)
    from a obtain st where
      bef: "scanRegions rt ?tid (Suc 0) before st1 = Continue st"
      unfolding scanRegions_append by (auto split: flow.splits)
    from scan_reaches_single(3) [OF init tasks regs single dist own pre bef] have
      m2: "map_of (storeTaskMap st) ?tid \<noteq> None" and
      whole: "scanTasks rt originalTasks (scanStart rt stm) =
           (case scanRegions rt ?tid (Suc (Suc (length before))) after (appendTo ?tid ri st) of
              Continue st' \<Rightarrow> scanTasks rt post st'
            | ReturnOriginal \<Rightarrow> ReturnOriginal
            | Panic p \<Rightarrow> Panic p)"
      by simp_all
    from whole scan obtain stB where
      c: "scanRegions rt ?tid (Suc (Suc (length before))) after (appendTo ?tid ri st) = Continue stB"
      and d: "scanTasks rt post stB = Continue stS"
      by (auto split: flow.splits)
    from m2 obtain t where t: "map_of (storeTaskMap st) ?tid = Some t" by auto
    have g0: "grows stm (storeTaskMap st)"
    proof -
      have "grows (storeTaskMap (scanStart rt stm)) (storeTaskMap st1)"
        using pre by (rule grows_scanTasks)
      moreover have "grows (storeTaskMap st1) (storeTaskMap st)"
        using bef by (rule grows_scanRegions)
      ultimately have "grows (storeTaskMap (scanStart rt stm)) (storeTaskMap st)"
        by (rule grows_trans)
      then show ?thesis by (simp add: scanStart_def)
    qed
    from scan_reaches_single(1) [OF init tasks regs single dist own] obtain t0 where
      t0: "map_of stm ?tid = Some t0" by auto
    have "\<forall>k t. map_of stm k = Some t \<longrightarrow> (\<exists>r. regionInfos t = [r] \<and> hd (AllStores r) = k)"
      using init by (rule init_primary) simp
    with t0 obtain r' where r': "regionInfos t0 = [r']" "hd (AllStores r') = ?tid" by blast
    from g0 t0 t obtain m0 where m0: "regionInfos t = regionInfos t0 @ m0"
      unfolding grows_def by fastforce
    have ap: "map_of (storeTaskMap (appendTo ?tid ri st)) ?tid =
                Some (t\<lparr>regionInfos := regionInfos t @ [ri]\<rparr>)"
      using t by (simp add: appendTo_def update_conv')
    have g1: "grows (storeTaskMap (appendTo ?tid ri st)) (storeTaskMap st')"
    proof -
      have "grows (storeTaskMap (appendTo ?tid ri st)) (storeTaskMap stB)"
        using c by (rule grows_scanRegions)
      moreover have "grows (storeTaskMap stB) (storeTaskMap stS)"
        using d by (rule grows_scanTasks)
      ultimately have "grows (storeTaskMap (appendTo ?tid ri st)) (storeTaskMap stS)"
        by (rule grows_trans)
      moreover have "grows (storeTaskMap stS) (storeTaskMap st')"
        using grows_balanceLoop [OF loop] eq by simp
      ultimately show ?thesis by (rule grows_trans)
    qed
    from g1 ap obtain t' more where
      t': "map_of (storeTaskMap st') ?tid = Some t'"
          "regionInfos t' = regionInfos (t\<lparr>regionInfos := regionInfos t @ [ri]\<rparr>) @ more"
      unfolding grows_def by blast
    have ri: "regionInfos t' = r' # m0 @ ri # more" using t'(2) m0 r'(1) by simp
    have "(?tid, t') \<in> set (storeTaskMap st')" using t'(1) by (rule map_of_SomeD)
    then have "t' \<in> set res" unfolding r by (force simp: set_permute)
    moreover have "primaryStore t' = ?tid" using ri r'(2) by (simp add: primaryStore_def)
    moreover have "ri \<in> set (tl (regionInfos t'))" using ri by simp
    ultimately show ?thesis by blast
  qed
qed

text \<open>
  C2 (a single valid store). Take a draft list on which lines 107-114 do not panic, and in
  it a region \<open>ri\<close> that is not the first of its draft task, names no store twice in
  \<^verbatim>\<open>AllStores\<close> and names there the primary store of its own draft, as the planner's
  drafts do. If the set of valid stores of \<open>ri\<close> has exactly one element, then

  \<^item> that element is the primary store of the draft of \<open>ri\<close>;

  \<^item> when the scan of lines 115-157 reaches \<open>ri\<close>, in the state \<open>st\<close> after the drafts
    \<open>pre\<close> and the regions before \<open>ri\<close>, the region still has this one valid store, the
    store has a task, and the step of the scan for \<open>ri\<close> appends \<open>ri\<close> to that task and
    changes nothing else (no candidate, no counter); the scan of the whole draft list goes
    on from that state;

  \<^item> in every task list that the balancer returns, \<open>ri\<close> is a region after the first of a
    task of that store.
\<close>

theorem scan_single_valid_store:
  assumes "initStoreTaskMap originalTasks [] = Inr stm"
      and "originalTasks = pre @ task # post"
      and "regionInfos task = r0 # before @ ri # after"
      and "card (validStores stm ri) = 1"
      and "distinct (AllStores ri)"
      and "primaryStore task \<in> set (AllStores ri)"
  shows "validStores stm ri = {primaryStore task} \<and>
         (scanTasks rt pre (scanStart rt stm) = Continue st1 \<and>
          scanRegions rt (primaryStore task) 0 (r0 # before) st1 = Continue st \<longrightarrow>
            validStores (storeTaskMap st) ri = {primaryStore task} \<and>
            map_of (storeTaskMap st) (primaryStore task) \<noteq> None \<and>
            scanRegion rt (primaryStore task) st ri =
              Continue (appendTo (primaryStore task) ri st) \<and>
            scanTasks rt originalTasks (scanStart rt stm) =
              (case scanRegions rt (primaryStore task) (Suc (Suc (length before))) after
                      (appendTo (primaryStore task) ri st) of
                 Continue st' \<Rightarrow> scanTasks rt post st'
               | ReturnOriginal \<Rightarrow> ReturnOriginal
               | Panic p \<Rightarrow> Panic p)) \<and>
         (balanceBatchCopTask rt fuel originalTasks = Some (Inr res) \<longrightarrow>
            (\<exists>t \<in> set res. primaryStore t = primaryStore task \<and>
               ri \<in> set (tl (regionInfos t))))"
proof (intro conjI impI)
  show "validStores stm ri = {primaryStore task}"
    using assms by (rule scan_reaches_single(2))
next
  assume a: "scanTasks rt pre (scanStart rt stm) = Continue st1 \<and>
             scanRegions rt (primaryStore task) 0 (r0 # before) st1 = Continue st"
  then have pre: "scanTasks rt pre (scanStart rt stm) = Continue st1"
    and bef: "scanRegions rt (primaryStore task) (Suc 0) before st1 = Continue st"
    by simp_all
  note r = scan_reaches_single(3) [OF assms pre bef]
  from r show "validStores (storeTaskMap st) ri = {primaryStore task}" by (rule conjunct1)
  from r show "map_of (storeTaskMap st) (primaryStore task) \<noteq> None" by blast
  from r show "scanRegion rt (primaryStore task) st ri =
                 Continue (appendTo (primaryStore task) ri st)" by blast
  from r show "scanTasks rt originalTasks (scanStart rt stm) =
              (case scanRegions rt (primaryStore task) (Suc (Suc (length before))) after
                      (appendTo (primaryStore task) ri st) of
                 Continue st' \<Rightarrow> scanTasks rt post st'
               | ReturnOriginal \<Rightarrow> ReturnOriginal
               | Panic p \<Rightarrow> Panic p)" by blast
next
  assume "balanceBatchCopTask rt fuel originalTasks = Some (Inr res)"
  with assms show "\<exists>t \<in> set res. primaryStore t = primaryStore task \<and>
                     ri \<in> set (tl (regionInfos t))"
    by (rule balance_has_single)
qed

theorem scan_single_valid_store_witness:
  "initStoreTaskMap draftSingleValid [] = Inr (storeTaskMap stateTwoStores) \<and>
   card (validStores (storeTaskMap stateTwoStores) (reg 3 [1, 3])) = 1 \<and>
   validStores (storeTaskMap stateTwoStores) (reg 3 [1, 3]) = {1} \<and>
   scanTasks rt0 [] (scanStart rt0 (storeTaskMap stateTwoStores)) = Continue stateTwoStores \<and>
   scanRegions rt0 1 0 [reg 1 [1], reg 4 [1, 2]] stateTwoStores = Continue stateOneCandidate \<and>
   validStores (storeTaskMap stateOneCandidate) (reg 3 [1, 3]) = {1} \<and>
   scanRegion rt0 1 stateOneCandidate (reg 3 [1, 3]) =
     Continue (appendTo 1 (reg 3 [1, 3]) stateOneCandidate) \<and>
   map_of (storeTaskMap (appendTo 1 (reg 3 [1, 3]) stateOneCandidate)) 1 =
     Some (tk ''s1'' [reg 1 [1], reg 3 [1, 3]]) \<and>
   scanTasks rt0 draftSingleValid (scanStart rt0 (storeTaskMap stateTwoStores)) =
     Continue (appendTo 1 (reg 3 [1, 3]) stateOneCandidate) \<and>
   balanceBatchCopTask rt0 (Suc 0) draftSingleValid =
     Some (Inr [tk ''s1'' [reg 1 [1], reg 3 [1, 3]], tk ''s2'' [reg 2 [2], reg 4 [1, 2]]]) \<and>
   primaryStore (tk ''s1'' [reg 1 [1], reg 3 [1, 3]]) = 1 \<and>
   reg 3 [1, 3] \<in> set (tl (regionInfos (tk ''s1'' [reg 1 [1], reg 3 [1, 3]])))"
proof -
  let ?task = "tk ''s1'' [reg 1 [1], reg 4 [1, 2], reg 3 [1, 3]]"
  have ps: "primaryStore ?task = 1" by (simp add: primaryStore_def tk_def reg_def)
  have i: "initStoreTaskMap draftSingleValid [] = Inr (storeTaskMap stateTwoStores)"
    by (simp add: draftSingleValid_def stateTwoStores_def tk_def reg_def)
  have t: "draftSingleValid = [] @ ?task # [tk ''s2'' [reg 2 [2]]]"
    by (simp add: draftSingleValid_def)
  have g: "regionInfos ?task = reg 1 [1] # [reg 4 [1, 2]] @ reg 3 [1, 3] # []"
    by (simp add: tk_def)
  have "validStores (storeTaskMap stateTwoStores) (reg 3 [1, 3]) = {1}"
    by (auto simp: validStores_def stateTwoStores_def reg_def)
  then have c: "card (validStores (storeTaskMap stateTwoStores) (reg 3 [1, 3])) = 1" by simp
  have d: "distinct (AllStores (reg 3 [1, 3]))" by (simp add: reg_def)
  have o: "primaryStore ?task \<in> set (AllStores (reg 3 [1, 3]))" unfolding ps by (simp add: reg_def)
  have p: "scanTasks rt0 [] (scanStart rt0 (storeTaskMap stateTwoStores)) = Continue stateTwoStores"
    by (simp add: scanStart_def stateTwoStores_def rt0_def)
  have k: "replicate 4 CHR ''r'' = ''rrrr''" by (simp add: eval_nat_numeral)
  have b: "scanRegions rt0 1 0 [reg 1 [1], reg 4 [1, 2]] stateTwoStores = Continue stateOneCandidate"
    by (simp add: scanRegion_def validStoreNum_def stateTwoStores_def stateOneCandidate_def
        reg_def tk_def rt0_def k)
  have r: "balanceBatchCopTask rt0 (Suc 0) draftSingleValid =
     Some (Inr [tk ''s1'' [reg 1 [1], reg 3 [1, 3]], tk ''s2'' [reg 2 [2], reg 4 [1, 2]]])"
    by (simp add: balanceBatchCopTask_def draftSingleValid_def tk_def reg_def rt0_def
        scanRegion_def validStoreNum_def balanceStep_def assignRegion_def findNextStore_def
        candLen_def projected_def MaxUint64_def Let_def)
  have a: "map_of (storeTaskMap (appendTo 1 (reg 3 [1, 3]) stateOneCandidate)) 1 =
     Some (tk ''s1'' [reg 1 [1], reg 3 [1, 3]])"
    by (simp add: appendTo_def stateOneCandidate_def stateTwoStores_def tk_def)
  have q: "primaryStore (tk ''s1'' [reg 1 [1], reg 3 [1, 3]]) = 1 \<and>
     reg 3 [1, 3] \<in> set (tl (regionInfos (tk ''s1'' [reg 1 [1], reg 3 [1, 3]])))"
    by (simp add: primaryStore_def tk_def reg_def)
  note th = scan_single_valid_store [OF i t g c d o, where rt = rt0
      and ?st1.0 = stateTwoStores and st = stateOneCandidate and fuel = "Suc 0"
      and res = "[tk ''s1'' [reg 1 [1], reg 3 [1, 3]], tk ''s2'' [reg 2 [2], reg 4 [1, 2]]]",
      unfolded ps]
  from th have v: "validStores (storeTaskMap stateTwoStores) (reg 3 [1, 3]) = {1}"
    by (rule conjunct1)
  from th p b have x:
    "validStores (storeTaskMap stateOneCandidate) (reg 3 [1, 3]) = {1} \<and>
     map_of (storeTaskMap stateOneCandidate) 1 \<noteq> None \<and>
     scanRegion rt0 1 stateOneCandidate (reg 3 [1, 3]) =
       Continue (appendTo 1 (reg 3 [1, 3]) stateOneCandidate) \<and>
     scanTasks rt0 draftSingleValid (scanStart rt0 (storeTaskMap stateTwoStores)) =
       (case scanRegions rt0 1 (Suc (Suc (length [reg 4 [1, 2]]))) []
               (appendTo 1 (reg 3 [1, 3]) stateOneCandidate) of
          Continue st' \<Rightarrow> scanTasks rt0 [tk ''s2'' [reg 2 [2]]] st'
        | ReturnOriginal \<Rightarrow> ReturnOriginal
        | Panic p \<Rightarrow> Panic p)"
    by blast
  then have w: "scanTasks rt0 draftSingleValid (scanStart rt0 (storeTaskMap stateTwoStores)) =
       Continue (appendTo 1 (reg 3 [1, 3]) stateOneCandidate)"
    by (simp add: tk_def reg_def)
  from i c v p b x a w r q show ?thesis by blast
qed

section \<open>Regions lost by the balancer\<close>

lemma taskLoad_update:
  "map_of stm k = Some t \<Longrightarrow>
   taskLoad (AList.update k (t\<lparr>regionInfos := regionInfos t @ [ri]\<rparr>) stm) = Suc (taskLoad stm)"
  by (induction stm) (auto simp: taskLoad_def)

lemma set_delete_subset: "set (AList.delete k m) \<subseteq> set m"
  by (induction m) auto

lemma keys_update_same:
  "map_of c sid = Some m \<Longrightarrow>
   (map_of (AList.update sid m' c) x \<noteq> None) = (map_of c x \<noteq> None)"
  by (auto simp: update_conv')

lemma storesWithMap_update:
  assumes "map_of c sid = Some m"
  shows "storesWithMap (AList.update sid m' c) ri = storesWithMap c ri"
proof -
  have "(\<lambda>x. map_of (AList.update sid m' c) x \<noteq> None) = (\<lambda>x. map_of c x \<noteq> None)"
    by (rule ext) (rule keys_update_same [OF assms])
  then show ?thesis unfolding storesWithMap_def by simp
qed

lemma heavy_update_delete:
  assumes "heavy c" and "map_of c sid = Some m"
  shows "heavy (AList.update sid (AList.delete key m) c)"
  unfolding heavy_def
proof (intro ballI, clarify)
  fix s m' k ri
  assume a: "(s, m') \<in> set (AList.update sid (AList.delete key m) c)" and b: "(k, ri) \<in> set m'"
  have sm: "(sid, m) \<in> set c" using assms(2) by (rule map_of_SomeD)
  from a have "(s, m') = (sid, AList.delete key m) \<or> (s, m') \<in> set c"
    using set_update_subset [of sid "AList.delete key m" c] by auto
  then have "\<exists>m0. (s, m0) \<in> set c \<and> (k, ri) \<in> set m0"
  proof
    assume "(s, m') = (sid, AList.delete key m)"
    then show ?thesis using b sm set_delete_subset [of key m] by auto
  next
    assume "(s, m') \<in> set c"
    then show ?thesis using b by auto
  qed
  then have "3 \<le> storesWithMap c ri" using assms(1) by (auto simp: heavy_def)
  then show "3 \<le> storesWithMap (AList.update sid (AList.delete key m) c) ri"
    by (simp add: storesWithMap_update [OF assms(2)])
qed

lemma removeCandidate_total:
  "heavy (storeCandidateTaskMap st) \<Longrightarrow>
   heavy (storeCandidateTaskMap (removeCandidate key ss st)) \<and>
   totalCandidateStoreNum (removeCandidate key ss st) =
     totalCandidateStoreNum st
       - int (length (filter (\<lambda>sid. map_of (storeCandidateTaskMap st) sid \<noteq> None) ss)) \<and>
   (\<forall>x. (map_of (storeCandidateTaskMap (removeCandidate key ss st)) x \<noteq> None) =
        (map_of (storeCandidateTaskMap st) x \<noteq> None))"
proof (induction ss arbitrary: st)
  case Nil
  then show ?case by simp
next
  case (Cons sid rest)
  show ?case
  proof (cases "map_of (storeCandidateTaskMap st) sid")
    case None
    then show ?thesis using Cons by simp
  next
    case (Some m)
    let ?st1 = "st\<lparr>storeCandidateTaskMap :=
                  AList.update sid (AList.delete key m) (storeCandidateTaskMap st),
                totalCandidateStoreNum := totalCandidateStoreNum st - 1\<rparr>"
    have h1: "heavy (storeCandidateTaskMap ?st1)"
      using heavy_update_delete [OF Cons.prems Some] by simp
    have k1: "\<And>x. (map_of (storeCandidateTaskMap ?st1) x \<noteq> None) =
                  (map_of (storeCandidateTaskMap st) x \<noteq> None)"
      using keys_update_same [OF Some] by simp
    note ih = Cons.IH [OF h1]
    have r: "removeCandidate key (sid # rest) st = removeCandidate key rest ?st1"
      using Some by simp
    have f: "filter (\<lambda>sid. map_of (storeCandidateTaskMap ?st1) sid \<noteq> None) rest =
             filter (\<lambda>sid. map_of (storeCandidateTaskMap st) sid \<noteq> None) rest"
      using k1 by metis
    show ?thesis
      unfolding r using ih k1 f Some by simp
  qed
qed

lemma switchStore_keeps:
  "switchStore rt ss st = Inr st' \<Longrightarrow>
   storeTaskMap st' = storeTaskMap st \<and> storeCandidateTaskMap st' = storeCandidateTaskMap st \<and>
   totalCandidateStoreNum st' = totalCandidateStoreNum st"
  by (induction ss arbitrary: st) (auto split: if_splits option.splits)

lemma assignRegion_potential:
  assumes "assignRegion rt key ri st = Inr st'"
      and "heavy (storeCandidateTaskMap st)"
      and "3 \<le> storesWithMap (storeCandidateTaskMap st) ri"
  shows "heavy (storeCandidateTaskMap st') \<and>
         taskLoad (storeTaskMap st') = Suc (taskLoad (storeTaskMap st)) \<and>
         totalCandidateStoreNum st' \<le> totalCandidateStoreNum st - 3"
proof -
  from assms(1) obtain t where t: "map_of (storeTaskMap st) (store st) = Some t"
    by (auto simp: assignRegion_def split: option.splits)
  let ?st1 = "st\<lparr>storeTaskMap :=
                       AList.update (store st) (t\<lparr>regionInfos := regionInfos t @ [ri]\<rparr>)
                         (storeTaskMap st),
                     totalCandidateCopTaskNum := totalCandidateCopTaskNum st - 1\<rparr>"
  let ?st2 = "removeCandidate key (AllStores ri) ?st1"
  have h1: "heavy (storeCandidateTaskMap ?st1)" using assms(2) by simp
  note rc = removeCandidate_total [OF h1, of key "AllStores ri"]
  have tot: "totalCandidateStoreNum ?st2 \<le> totalCandidateStoreNum st - 3"
    using rc assms(3) by (simp add: storesWithMap_def)
  have load: "taskLoad (storeTaskMap ?st2) = Suc (taskLoad (storeTaskMap st))"
    using taskLoad_update [OF t] by simp
  have "storeTaskMap st' = storeTaskMap ?st2 \<and>
        storeCandidateTaskMap st' = storeCandidateTaskMap ?st2 \<and>
        totalCandidateStoreNum st' = totalCandidateStoreNum ?st2"
    using assms(1) t
    by (auto simp: assignRegion_def Let_def split: if_splits dest!: switchStore_keeps)
  then show ?thesis using rc tot load by simp
qed

lemma findNextStore_keeps [simp]:
  "storeCandidateTaskMap (findNextStore rt st) = storeCandidateTaskMap st"
  "totalCandidateStoreNum (findNextStore rt st) = totalCandidateStoreNum st"
  by (simp_all add: findNextStore_def split: prod.splits)

lemma balanceStep_potential:
  assumes "balanceStep rt st = Inr st'" and "heavy (storeCandidateTaskMap st)"
  shows "heavy (storeCandidateTaskMap st') \<and>
         (taskLoad (storeTaskMap st') = taskLoad (storeTaskMap st) \<and>
          totalCandidateStoreNum st' = totalCandidateStoreNum st \<or>
          taskLoad (storeTaskMap st') = Suc (taskLoad (storeTaskMap st)) \<and>
          totalCandidateStoreNum st' \<le> totalCandidateStoreNum st - 3)"
proof -
  define st1 where "st1 = (if candLen (storeCandidateTaskMap st) (store st) = 0
                 then findNextStore rt st else st)"
  define m where "m = (case map_of (storeCandidateTaskMap st1) (store st1) of
                 None \<Rightarrow> [] | Some m \<Rightarrow> m)"
  have k1: "storeCandidateTaskMap st1 = storeCandidateTaskMap st"
    "totalCandidateStoreNum st1 = totalCandidateStoreNum st"
    "storeTaskMap st1 = storeTaskMap st"
    by (simp_all add: st1_def)
  have step: "balanceStep rt st =
     (case permute (rangeOrder rt (rangeCount st1)) m of
           [] \<Rightarrow> Inr (st1\<lparr>rangeCount := Suc (rangeCount st1)\<rparr>)
         | (key, ri) # _ \<Rightarrow> assignRegion rt key ri (st1\<lparr>rangeCount := Suc (rangeCount st1)\<rparr>))"
    unfolding balanceStep_def st1_def m_def Let_def by (rule refl)
  show ?thesis
  proof (cases "permute (rangeOrder rt (rangeCount st1)) m")
    case Nil
    with step assms(1) have "st' = st1\<lparr>rangeCount := Suc (rangeCount st1)\<rparr>" by simp
    then show ?thesis using k1 assms(2) by simp
  next
    case (Cons p ps)
    obtain key ri where p: "p = (key, ri)" by (cases p)
    have "(key, ri) \<in> set (permute (rangeOrder rt (rangeCount st1)) m)" using Cons p by simp
    then have in_m: "(key, ri) \<in> set m" by (simp add: set_permute)
    have m0: "map_of (storeCandidateTaskMap st1) (store st1) = Some m"
    proof (cases "map_of (storeCandidateTaskMap st1) (store st1)")
      case None
      with in_m show ?thesis by (simp add: m_def)
    next
      case (Some a)
      then show ?thesis by (simp add: m_def)
    qed
    then have "(store st1, m) \<in> set (storeCandidateTaskMap st)"
      using k1 by (auto dest: map_of_SomeD)
    then have three: "3 \<le> storesWithMap (storeCandidateTaskMap st) ri"
      using assms(2) in_m by (auto simp: heavy_def)
    let ?s = "st1\<lparr>rangeCount := Suc (rangeCount st1)\<rparr>"
    have a: "assignRegion rt key ri ?s = Inr st'" using step Cons p assms(1) by simp
    from assignRegion_potential [OF a] assms(2) three k1 show ?thesis by simp
  qed
qed

lemma balanceLoop_potential:
  assumes "balanceLoop rt fuel st = Some (Inr st')" and "heavy (storeCandidateTaskMap st)"
  shows "3 * int (taskLoad (storeTaskMap st')) \<le>
         max (3 * int (taskLoad (storeTaskMap st)))
             (3 * int (taskLoad (storeTaskMap st)) + totalCandidateStoreNum st + 2)"
  using assms
proof (induction fuel arbitrary: st)
  case 0
  then show ?case by (auto split: if_splits)
next
  case (Suc fuel)
  show ?case
  proof (cases "totalCandidateStoreNum st > 0")
    case False
    with Suc.prems show ?thesis by simp
  next
    case True
    with Suc.prems(1) obtain st1 where
      s: "balanceStep rt st = Inr st1" and l: "balanceLoop rt fuel st1 = Some (Inr st')"
      by (auto split: sum.splits)
    from balanceStep_potential [OF s Suc.prems(2)] have
      h: "heavy (storeCandidateTaskMap st1)" and
      d: "taskLoad (storeTaskMap st1) = taskLoad (storeTaskMap st) \<and>
          totalCandidateStoreNum st1 = totalCandidateStoreNum st \<or>
          taskLoad (storeTaskMap st1) = Suc (taskLoad (storeTaskMap st)) \<and>
          totalCandidateStoreNum st1 \<le> totalCandidateStoreNum st - 3"
      by auto
    from Suc.IH [OF l h] have
      ih: "3 * int (taskLoad (storeTaskMap st')) \<le>
           max (3 * int (taskLoad (storeTaskMap st1)))
             (3 * int (taskLoad (storeTaskMap st1)) + totalCandidateStoreNum st1 + 2)" .
    from d show ?thesis
    proof
      assume "taskLoad (storeTaskMap st1) = taskLoad (storeTaskMap st) \<and>
          totalCandidateStoreNum st1 = totalCandidateStoreNum st"
      then show ?thesis using ih by simp
    next
      assume "taskLoad (storeTaskMap st1) = Suc (taskLoad (storeTaskMap st)) \<and>
          totalCandidateStoreNum st1 \<le> totalCandidateStoreNum st - 3"
      then show ?thesis using ih True by auto
    qed
  qed
qed

lemma size_regionsOf: "size (regionsOf (map snd stm)) = taskLoad stm"
  by (induction stm) (auto simp: regionsOf_def taskLoad_def)

lemma taskLoad_permute: "taskLoad (permute cs stm) = taskLoad stm"
proof -
  have "mset (map (\<lambda>p. length (regionInfos (snd p))) (permute cs stm)) =
        mset (map (\<lambda>p. length (regionInfos (snd p))) stm)"
    using mset_permute [of cs stm] by (metis mset_map)
  then show ?thesis unfolding taskLoad_def by (metis sum_mset_sum_list)
qed

lemma scan_spare:
  assumes "distinct (spareKeys rt)"
  shows "scanTasks rt draftSpareStores
           \<lparr>storeTaskMap = [(1, tk ''s1'' [reg 1 [1]]), (2, tk ''s2'' [reg 2 [2]])],
            storeCandidateTaskMap = [], totalCandidateStoreNum = 0,
            totalCandidateCopTaskNum = 0, avgStorePerTask = float64 rt 0, store = MaxUint64,
            possibleTaskNum = float64 rt 0, rangeCount = 0\<rparr> = Continue (spareScan rt)"
proof -
  have d: "String_of rt \<lparr>regionId = 3, confVer = 1, ver = 1\<rparr> \<noteq>
             String_of rt \<lparr>regionId = 4, confVer = 1, ver = 1\<rparr>"
          "String_of rt \<lparr>regionId = 3, confVer = 1, ver = 1\<rparr> \<noteq>
             String_of rt \<lparr>regionId = 5, confVer = 1, ver = 1\<rparr>"
          "String_of rt \<lparr>regionId = 4, confVer = 1, ver = 1\<rparr> \<noteq>
             String_of rt \<lparr>regionId = 5, confVer = 1, ver = 1\<rparr>"
    using assms by (simp_all add: spareKeys_def)
  note d' = d d [symmetric]
  show ?thesis
    by (simp add: draftSpareStores_def spareScan_def tk_def reg_def scanRegion_def
        validStoreNum_def d')
qed

lemma heavy_spare: "heavy (storeCandidateTaskMap (spareScan rt))"
  by (simp add: heavy_def spareScan_def storesWithMap_def reg_def)

text \<open>
  C1 at a failing input. For the drafts \<open>draftSpareStores\<close> the three spare regions are
  candidates with two valid stores each, so \<^verbatim>\<open>totalCandidateStoreNum\<close> starts at 6; each
  region assigned takes 3 off it, one for every store of its \<^verbatim>\<open>AllStores\<close>, and the
  main loop ends after two assignments. Whatever the \<^verbatim>\<open>float64\<close> arithmetic, the order
  of map iteration and the fuel are, when the three regions have three different keys and
  the balancer returns, it returns fewer regions than the drafts hold.
\<close>

theorem balance_loses_region:
  assumes "distinct (spareKeys rt)"
      and "balanceBatchCopTask rt fuel draftSpareStores = Some (Inr res)"
  shows "size (regionsOf res) < size (regionsOf draftSpareStores)"
proof -
  have i: "initStoreTaskMap draftSpareStores [] =
             Inr [(1, tk ''s1'' [reg 1 [1]]), (2, tk ''s2'' [reg 2 [2]])]"
    by (simp add: draftSpareStores_def tk_def reg_def)
  let ?st0 = "spareScan rt\<lparr>avgStorePerTask :=
                fdiv rt (float64 rt (totalCandidateStoreNum (spareScan rt)))
                  (float64 rt (totalCandidateCopTaskNum (spareScan rt)))\<rparr>"
  have t0: "totalCandidateStoreNum (spareScan rt) = 6" by (simp add: spareScan_def)
  from assms(2) obtain st' where
    l: "balanceLoop rt fuel (findNextStore rt ?st0) = Some (Inr st')" and
    r: "res = map snd (permute (rangeOrder rt (rangeCount st')) (storeTaskMap st'))"
    using i scan_spare [OF assms(1)] t0
    by (auto simp: balanceBatchCopTask_def Let_def split: option.splits sum.splits)
  have h: "heavy (storeCandidateTaskMap (findNextStore rt ?st0))"
    using heavy_spare [of rt] by simp
  have n0: "taskLoad (storeTaskMap (findNextStore rt ?st0)) = 2"
    by (simp add: spareScan_def taskLoad_def tk_def)
  have "totalCandidateStoreNum (findNextStore rt ?st0) = 6" using t0 by simp
  with balanceLoop_potential [OF l h] n0
  have "3 * int (taskLoad (storeTaskMap st')) \<le> 14" by simp
  then have "taskLoad (storeTaskMap st') \<le> 4" by simp
  then have "size (regionsOf res) \<le> 4"
    unfolding r using size_regionsOf [of "permute (rangeOrder rt (rangeCount st')) (storeTaskMap st')"]
    by (simp add: taskLoad_permute)
  moreover have "size (regionsOf draftSpareStores) = 5"
    by (simp add: regionsOf_def draftSpareStores_def tk_def)
  ultimately show ?thesis by simp
qed


text \<open>The run with exact arithmetic and insertion order loses the region 5.\<close>

lemma balance_drops_region:
  "balanceBatchCopTask rt0 (Suc (Suc 0)) draftSpareStores =
     Some (Inr [tk ''s1'' [reg 1 [1], reg 3 [1, 2, 3]], tk ''s2'' [reg 2 [2], reg 4 [1, 2, 4]]]) \<and>
   reg 5 [1, 2, 5] \<in># regionsOf draftSpareStores \<and>
   reg 5 [1, 2, 5] \<notin>#
     regionsOf [tk ''s1'' [reg 1 [1], reg 3 [1, 2, 3]], tk ''s2'' [reg 2 [2], reg 4 [1, 2, 4]]]"
proof -
  have "balanceBatchCopTask rt0 (Suc (Suc 0)) draftSpareStores =
     Some (Inr [tk ''s1'' [reg 1 [1], reg 3 [1, 2, 3]], tk ''s2'' [reg 2 [2], reg 4 [1, 2, 4]]])"
    by (simp add: balanceBatchCopTask_def draftSpareStores_def tk_def reg_def rt0_def
        scanRegion_def validStoreNum_def candLen_def findNextStore_def projected_def
        assignRegion_def balanceStep_def MaxUint64_def Let_def)
  moreover have "reg 5 [1, 2, 5] \<in># regionsOf draftSpareStores"
    by (simp add: regionsOf_def draftSpareStores_def tk_def)
  moreover have "reg 5 [1, 2, 5] \<notin>#
     regionsOf [tk ''s1'' [reg 1 [1], reg 3 [1, 2, 3]], tk ''s2'' [reg 2 [2], reg 4 [1, 2, 4]]]"
    by (simp add: regionsOf_def tk_def reg_def)
  ultimately show ?thesis by simp
qed


theorem balance_loses_region_witness:
  "distinct (spareKeys rt0) \<and>
   balanceBatchCopTask rt0 (Suc (Suc 0)) draftSpareStores =
     Some (Inr [tk ''s1'' [reg 1 [1], reg 3 [1, 2, 3]], tk ''s2'' [reg 2 [2], reg 4 [1, 2, 4]]]) \<and>
   size (regionsOf [tk ''s1'' [reg 1 [1], reg 3 [1, 2, 3]], tk ''s2'' [reg 2 [2], reg 4 [1, 2, 4]]])
     < size (regionsOf draftSpareStores)"
proof -
  have d: "distinct (spareKeys rt0)" by (simp add: spareKeys_def rt0_def)
  have e: "balanceBatchCopTask rt0 (Suc (Suc 0)) draftSpareStores =
     Some (Inr [tk ''s1'' [reg 1 [1], reg 3 [1, 2, 3]], tk ''s2'' [reg 2 [2], reg 4 [1, 2, 4]]])"
    using balance_drops_region by simp
  from balance_loses_region [OF d e] d e show ?thesis by simp
qed

text \<open>
  When two spare regions share a store that is the primary store of no draft, the run
  with exact arithmetic and insertion order panics: line 202 reads
  \<^verbatim>\<open>storeTaskMap[id].regionInfos\<close> for that store.
\<close>

lemma balance_panics:
  "balanceBatchCopTask rt0 (Suc 0) draftSharedSpare = Some (Inl NilDereference)"
  by (simp add: balanceBatchCopTask_def draftSharedSpare_def tk_def reg_def rt0_def
      scanRegion_def validStoreNum_def candLen_def findNextStore_def projected_def
      assignRegion_def balanceStep_def MaxUint64_def Let_def)

section \<open>The request sender classifies a failed send\<close>

text \<open>
  C5 (failure classification). For a send that fails in the transport with the error
  \<open>e\<close> (the context is not nil and stamping the request succeeded):
  \<^item> when the cause of \<open>e\<close> is \<^verbatim>\<open>context.Canceled\<close> or a gRPC status with the code
    \<^verbatim>\<open>Canceled\<close>, \<^verbatim>\<open>SendReqToAddr\<close> returns \<open>e\<close> (traced) with \<^verbatim>\<open>retry = false\<close>, and the
    topology cache is not told and no backoff is made;
  \<^item> else, when \<^verbatim>\<open>ShuttingDown\<close> is set, it returns the shutting-down error with
    \<^verbatim>\<open>retry = false\<close>, again without touching the cache or the backoffer;
  \<^item> otherwise it tells the topology cache of the failure, makes one backoff of the
    category \<^verbatim>\<open>BoTiFlashRPC\<close>, and returns \<^verbatim>\<open>retry = true\<close> with no response and no
    error when the backoff succeeds, the error of the backoff with \<^verbatim>\<open>retry = false\<close>
    when it fails.
\<close>

theorem send_failure_classification:
  assumes "setContext env tr = None"
      and "sendRequest env (tr @ [SetContext]) (Addr c) = Inl e"
  shows "SendReqToAddr env tr (Some c) regions =
     (if Cause e = ContextCanceled \<or> status_Code (Cause e) = codes_Canceled then
        Inr (\<lparr>sendResp = None, retry = False, cancel = NoopCancel,
              sendErr = Some (Trace (Trace e))\<rparr>, sendFailTrace env tr c e)
      else if ShuttingDown env (sendFailTrace env tr c e) > 0 then
        Inr (\<lparr>sendResp = None, retry = False, cancel = NoopCancel,
              sendErr = Some (Trace ErrTiDBShuttingDown)\<rparr>, sendFailTrace env tr c e)
      else
        (case backoff env (notifiedTrace env tr c regions e) BoTiFlashRPC of
           None \<Rightarrow>
             Inr (\<lparr>sendResp = None, retry = True, cancel = NoopCancel, sendErr = None\<rparr>,
                  notifiedTrace env tr c regions e @ [Backoff BoTiFlashRPC])
         | Some be \<Rightarrow>
             Inr (\<lparr>sendResp = None, retry = False, cancel = NoopCancel,
                   sendErr = Some (Trace (Trace be))\<rparr>,
                  notifiedTrace env tr c regions e @ [Backoff BoTiFlashRPC])))"
  using assms
  by (auto simp: SendReqToAddr_def onSendFailForBatchRegions_def Let_def TraceOpt_def
      sendFailTrace_def notifiedTrace_def split: option.splits)

theorem send_failure_classification_witness:
  "setContext env1 [] = None \<and>
   sendRequest env1 ([] @ [SetContext]) (Addr ctx1) = Inl (ErrorNew ''connection refused'') \<and>
   SendReqToAddr env1 [] (Some ctx1) [] =
     Inr (\<lparr>sendResp = None, retry = True, cancel = NoopCancel, sendErr = None\<rparr>,
          [SetContext, SendRequest ''s1'', CancelRPC, SetRPCError (ErrorNew ''connection refused''),
           OnSendFailForBatchRegions 1 [] False (ErrorNew ''connection refused''),
           Backoff BoTiFlashRPC])"
proof -
  have a: "setContext env1 [] = None" by (simp add: env1_def)
  have b: "sendRequest env1 ([] @ [SetContext]) (Addr ctx1) = Inl (ErrorNew ''connection refused'')"
    by (simp add: env1_def ctx1_def)
  from send_failure_classification [OF a b, of "[]"] a b show ?thesis
    by (simp add: env1_def ctx1_def sendFailTrace_def notifiedTrace_def status_Code_def
        codes_Canceled_def codes_Unknown_def)
qed

section \<open>The stream consumer\<close>

lemma handleBatchCopResponse_ok:
  "OtherError r = [] \<Longrightarrow>
   \<exists>w1. handleBatchCopResponse env w r task = (None, w1) \<and> trace w1 = trace w"
  by (simp add: handleBatchCopResponse_def sendToRespCh_def)

lemma streamLoop_receive_error:
  assumes "\<forall>r \<in> set (r0 # rs). OtherError r = []"
  shows "\<exists>w'. streamLoop env w r0 rs fin task =
           (if Cause fin = EOF then None
            else (case backoff env (trace w @ replicate (Suc (length rs)) Recv) BoTiKVRPC of
                    Some err1 \<Rightarrow> Some (Trace fin)
                  | None \<Rightarrow> Some ErrTiFlashServerTimeout), w') \<and>
         trace w' = trace w @ replicate (Suc (length rs)) Recv
                      @ (if Cause fin = EOF then [] else [Backoff BoTiKVRPC])"
  using assms
proof (induction rs arbitrary: w r0)
  case Nil
  then obtain w1 where h: "handleBatchCopResponse env w r0 task = (None, w1)" "trace w1 = trace w"
    using handleBatchCopResponse_ok [of r0 env w task] by auto
  then show ?case by (auto simp: Let_def split: option.splits)
next
  case (Cons r rest)
  then obtain w1 where h: "handleBatchCopResponse env w r0 task = (None, w1)" "trace w1 = trace w"
    using handleBatchCopResponse_ok [of r0 env w task] by auto
  let ?w = "w1\<lparr>trace := trace w1 @ [Recv]\<rparr>"
  have "\<forall>x \<in> set (r # rest). OtherError x = []" using Cons.prems by simp
  from Cons.IH [OF this, of ?w] obtain w' where
    ih: "streamLoop env ?w r rest fin task =
           (if Cause fin = EOF then None
            else (case backoff env (trace ?w @ replicate (Suc (length rest)) Recv) BoTiKVRPC of
                    Some err1 \<Rightarrow> Some (Trace fin)
                  | None \<Rightarrow> Some ErrTiFlashServerTimeout), w')"
        "trace w' = trace ?w @ replicate (Suc (length rest)) Recv
                      @ (if Cause fin = EOF then [] else [Backoff BoTiKVRPC])"
    by blast
  have tr: "trace ?w @ replicate (Suc (length rest)) Recv =
            trace w @ replicate (Suc (length (r # rest))) Recv"
    using h(2) by (simp add: replicate_append_same)
  show ?case
    using h ih tr by (auto simp: replicate_append_same)
qed

text \<open>
  C6 (receive error in mid-stream). For a stream whose sub-responses carry no
  \<^verbatim>\<open>OtherError\<close> and that ends with the receive error \<open>final\<close>: when the cause of
  \<open>final\<close> is \<^verbatim>\<open>io.EOF\<close> the consumer returns nil and makes no backoff; otherwise it
  makes exactly one backoff of the category \<^verbatim>\<open>BoTiKVRPC\<close>, right after the failed
  \<^verbatim>\<open>Recv\<close>, returns the receive error (traced) when that backoff fails and the
  server-timeout error when it succeeds, and does not call \<^verbatim>\<open>Recv\<close> again: the trace is
  one \<^verbatim>\<open>Recv\<close> for each sub-response after the first and one for the error, the backoff,
  and the close of the stream.
\<close>

theorem stream_receive_error:
  assumes "firstResponse response = Some r0"
      and "\<forall>r \<in> set (r0 # pending response). OtherError r = []"
  shows "fst (handleStreamedBatchCopResponse env w response task) =
           (if Cause (final response) = EOF then None
            else (case backoff env (afterStream w response) BoTiKVRPC of
                    Some err1 \<Rightarrow> Some (Trace (final response))
                  | None \<Rightarrow> Some ErrTiFlashServerTimeout)) \<and>
         trace (snd (handleStreamedBatchCopResponse env w response task)) =
           afterStream w response
             @ (if Cause (final response) = EOF then [] else [Backoff BoTiKVRPC])
             @ [StreamClose]"
proof -
  from streamLoop_receive_error [OF assms(2), of env w "final response" task]
  obtain w' where
    "streamLoop env w r0 (pending response) (final response) task =
           (if Cause (final response) = EOF then None
            else (case backoff env (afterStream w response) BoTiKVRPC of
                    Some err1 \<Rightarrow> Some (Trace (final response))
                  | None \<Rightarrow> Some ErrTiFlashServerTimeout), w')"
    "trace w' = afterStream w response
                  @ (if Cause (final response) = EOF then [] else [Backoff BoTiKVRPC])"
    unfolding afterStream_def by auto
  then show ?thesis
    using assms(1) by (simp add: handleStreamedBatchCopResponse_def)
qed


theorem stream_receive_error_witness:
  "firstResponse stream1 = Some \<lparr>Data = ''X'', OtherError = []\<rparr> \<and>
   OtherError \<lparr>Data = ''X'', OtherError = []\<rparr> = [] \<and>
   fst (handleStreamedBatchCopResponse env1 (newIterator []) stream1 task1) =
     Some ErrTiFlashServerTimeout \<and>
   trace (snd (handleStreamedBatchCopResponse env1 (newIterator []) stream1 task1)) =
     [GoRun, Recv, Recv, Backoff BoTiKVRPC, StreamClose]"
proof -
  have a: "firstResponse stream1 = Some \<lparr>Data = ''X'', OtherError = []\<rparr>"
    by (simp add: stream1_def)
  have b: "\<forall>r \<in> set (\<lparr>Data = ''X'', OtherError = []\<rparr> # pending stream1). OtherError r = []"
    by (simp add: stream1_def)
  from stream_receive_error [OF a b, of env1 "newIterator []" task1] a show ?thesis
    by (simp add: stream1_def env1_def afterStream_def newIterator_def)
qed

section \<open>The planner retries a pass with a missing region\<close>

lemma region_copTasksOf [simp]: "map region (copTasksOf tp locs) = map fst locs"
  by (induction locs) (auto simp: copTasksOf_def)

lemma length_copTasksOf [simp]: "length (copTasksOf tp locs) = length locs"
  by (simp add: copTasksOf_def)

lemma resolvedAt_Suc:
  "resolvedAt env tr (r # regs) (Suc i) = resolvedAt env (tr @ [GetTiFlashRPCContext r]) regs i"
  by (simp add: resolvedAt_def)

lemma resolvedAt_0: "resolvedAt env tr (r # regs) 0 = getTiFlashRPCContext env tr r"
  by (simp add: resolvedAt_def)

lemma resolveTasks_step:
  assumes "getTiFlashRPCContext env (planTrace st) (region task) = Inr c"
  shows "\<exists>st1. resolveTasks env (task # rest) st = resolveTasks env rest st1 \<and>
           planTrace st1 = planTrace st @ [GetTiFlashRPCContext (region task)] \<and>
           needRetry st1 = (needRetry st \<or> c = None)"
  using assms by (cases c) (auto simp: Let_def split: option.splits)

lemma resolveTasks_all:
  assumes "\<forall>i < length ts. \<forall>e. resolvedAt env (planTrace st) (map region ts) i \<noteq> Inl e"
  shows "\<exists>st'. resolveTasks env ts st = Inr st' \<and>
           planTrace st' = planTrace st @ map GetTiFlashRPCContext (map region ts) \<and>
           needRetry st' =
             (needRetry st \<or>
              (\<exists>i < length ts. resolvedAt env (planTrace st) (map region ts) i = Inr None))"
  using assms
proof (induction ts arbitrary: st)
  case Nil
  then show ?case by simp
next
  case (Cons task rest)
  let ?regs = "map region rest"
  from Cons.prems have "\<forall>e. resolvedAt env (planTrace st) (region task # ?regs) 0 \<noteq> Inl e"
    by auto
  then obtain c where c: "getTiFlashRPCContext env (planTrace st) (region task) = Inr c"
    unfolding resolvedAt_0 by (cases "getTiFlashRPCContext env (planTrace st) (region task)") auto
  from resolveTasks_step [OF c, of rest] obtain st1 where
    s1: "resolveTasks env (task # rest) st = resolveTasks env rest st1"
        "planTrace st1 = planTrace st @ [GetTiFlashRPCContext (region task)]"
        "needRetry st1 = (needRetry st \<or> c = None)"
    by blast
  have "\<forall>i < length rest. \<forall>e. resolvedAt env (planTrace st1) ?regs i \<noteq> Inl e"
  proof (intro allI impI)
    fix i e assume "i < length rest"
    then have "resolvedAt env (planTrace st) (map region (task # rest)) (Suc i) \<noteq> Inl e"
      using Cons.prems by auto
    then show "resolvedAt env (planTrace st1) ?regs i \<noteq> Inl e"
      by (simp add: resolvedAt_Suc s1(2))
  qed
  from Cons.IH [OF this] obtain st' where
    ih: "resolveTasks env rest st1 = Inr st'"
        "planTrace st' = planTrace st1 @ map GetTiFlashRPCContext ?regs"
        "needRetry st' = (needRetry st1 \<or>
              (\<exists>i < length rest. resolvedAt env (planTrace st1) ?regs i = Inr None))"
    by blast
  have ex: "(\<exists>i < length (task # rest).
               resolvedAt env (planTrace st) (map region (task # rest)) i = Inr None) =
            (c = None \<or> (\<exists>i < length rest. resolvedAt env (planTrace st1) ?regs i = Inr None))"
  proof
    assume "\<exists>i < length (task # rest).
               resolvedAt env (planTrace st) (map region (task # rest)) i = Inr None"
    then obtain i where i: "i < length (task # rest)"
      "resolvedAt env (planTrace st) (map region (task # rest)) i = Inr None" by blast
    show "c = None \<or> (\<exists>i < length rest. resolvedAt env (planTrace st1) ?regs i = Inr None)"
    proof (cases i)
      case 0
      with i c show ?thesis by (simp add: resolvedAt_0)
    next
      case (Suc j)
      with i have "j < length rest" "resolvedAt env (planTrace st1) ?regs j = Inr None"
        by (simp_all add: resolvedAt_Suc s1(2))
      then show ?thesis by blast
    qed
  next
    assume "c = None \<or> (\<exists>i < length rest. resolvedAt env (planTrace st1) ?regs i = Inr None)"
    then show "\<exists>i < length (task # rest).
               resolvedAt env (planTrace st) (map region (task # rest)) i = Inr None"
    proof
      assume "c = None"
      with c have "resolvedAt env (planTrace st) (map region (task # rest)) 0 = Inr None"
        by (simp add: resolvedAt_0)
      then show ?thesis by (intro exI [of _ 0]) simp
    next
      assume "\<exists>i < length rest. resolvedAt env (planTrace st1) ?regs i = Inr None"
      then obtain j where "j < length rest" "resolvedAt env (planTrace st1) ?regs j = Inr None"
        by blast
      then have "Suc j < length (task # rest) \<and>
                resolvedAt env (planTrace st) (map region (task # rest)) (Suc j) = Inr None"
        by (simp add: resolvedAt_Suc s1(2))
      then show ?thesis by blast
    qed
  qed
  show ?case
    using s1 ih ex by auto
qed

lemma resolveTasks_error:
  assumes "j < length ts"
      and "\<forall>i < j. \<forall>e. resolvedAt env (planTrace st) (map region ts) i \<noteq> Inl e"
      and "resolvedAt env (planTrace st) (map region ts) j = Inl e"
  shows "resolveTasks env ts st =
           Inl (Trace e, planTrace st @ map GetTiFlashRPCContext (take (Suc j) (map region ts)))"
  using assms
proof (induction ts arbitrary: st j)
  case Nil
  then show ?case by simp
next
  case (Cons task rest)
  show ?case
  proof (cases j)
    case 0
    with Cons.prems(3) have "getTiFlashRPCContext env (planTrace st) (region task) = Inl e"
      by (simp add: resolvedAt_0)
    then show ?thesis using 0 by (simp add: Let_def)
  next
    case (Suc k)
    from Cons.prems(2) Suc have "\<forall>e. resolvedAt env (planTrace st) (region task # map region rest) 0 \<noteq> Inl e"
      by auto
    then obtain c where c: "getTiFlashRPCContext env (planTrace st) (region task) = Inr c"
      unfolding resolvedAt_0 by (cases "getTiFlashRPCContext env (planTrace st) (region task)") auto
    from resolveTasks_step [OF c, of rest] obtain st1 where
      s1: "resolveTasks env (task # rest) st = resolveTasks env rest st1"
          "planTrace st1 = planTrace st @ [GetTiFlashRPCContext (region task)]"
      by blast
    have a: "k < length rest" using Cons.prems(1) Suc by simp
    have b: "\<forall>i < k. \<forall>e. resolvedAt env (planTrace st1) (map region rest) i \<noteq> Inl e"
    proof (intro allI impI)
      fix i e' assume "i < k"
      then have "resolvedAt env (planTrace st) (map region (task # rest)) (Suc i) \<noteq> Inl e'"
        using Cons.prems(2) Suc by auto
      then show "resolvedAt env (planTrace st1) (map region rest) i \<noteq> Inl e'"
        by (simp add: resolvedAt_Suc s1(2))
    qed
    have d: "resolvedAt env (planTrace st1) (map region rest) k = Inl e"
      using Cons.prems(3) Suc by (simp add: resolvedAt_Suc s1(2))
    from Cons.IH [OF a b d] show ?thesis
      using s1 Suc by simp
  qed
qed

text \<open>
  C7 (region miss). One pass of \<^verbatim>\<open>buildBatchCopTasks\<close> from the trace \<open>tr\<close>:
  \<^item> an error of \<^verbatim>\<open>SplitKeyRanges\<close> is returned (traced) to the caller;
  \<^item> an error of \<^verbatim>\<open>GetTiFlashRPCContext\<close> for the \<open>j\<close>-th region, the first one to get an
    error, is returned (traced) to the caller, and the regions after it are not resolved;
  \<^item> when the cache gives no error in the pass and no \<^verbatim>\<open>RPCContext\<close> for at least one
    region, the pass resolves every region, in order, then makes exactly one backoff of
    the category \<^verbatim>\<open>BoRegionMiss\<close>; when the backoff fails its error is returned (traced)
    to the caller, and when it succeeds planning starts again with the same \<open>ranges\<close>.
\<close>

theorem plan_region_miss_retry:
  fixes env :: "'f env"
  shows
  "(\<forall>e. splitKeyRanges env tr ranges = Inl e \<longrightarrow>
      buildBatchCopTasks env (Suc fuel) tr ranges tp =
        Some (Err (Trace e), firstTrace tr ranges)) \<and>
   (\<forall>locs. splitKeyRanges env tr ranges = Inr locs \<longrightarrow>
      (\<forall>j e. j < length locs \<and>
          (\<forall>i < j. \<forall>e'. resolvedAt env (firstTrace tr ranges) (map fst locs) i \<noteq> Inl e') \<and>
          resolvedAt env (firstTrace tr ranges) (map fst locs) j = Inl e \<longrightarrow>
          buildBatchCopTasks env (Suc fuel) tr ranges tp =
            Some (Err (Trace e),
              firstTrace tr ranges @ map GetTiFlashRPCContext (take (Suc j) (map fst locs)))) \<and>
      ((\<forall>i < length locs. \<forall>e. resolvedAt env (firstTrace tr ranges) (map fst locs) i \<noteq> Inl e) \<and>
       (\<exists>i < length locs. resolvedAt env (firstTrace tr ranges) (map fst locs) i = Inr None) \<longrightarrow>
         buildBatchCopTasks env (Suc fuel) tr ranges tp =
           (case backoff env (firstTrace tr ranges @ map GetTiFlashRPCContext (map fst locs))
                   BoRegionMiss of
              Some e \<Rightarrow>
                Some (Err (Trace e),
                  firstTrace tr ranges @ map GetTiFlashRPCContext (map fst locs)
                    @ [Backoff BoRegionMiss])
            | None \<Rightarrow>
                buildBatchCopTasks env fuel
                  (firstTrace tr ranges @ map GetTiFlashRPCContext (map fst locs)
                     @ [Backoff BoRegionMiss])
                  ranges tp)))"
proof (intro conjI allI impI)
  fix e assume "splitKeyRanges env tr ranges = Inl e"
  then show "buildBatchCopTasks env (Suc fuel) tr ranges tp =
        Some (Err (Trace e), firstTrace tr ranges)"
    by (simp add: firstTrace_def)
next
  fix locs j e
  let ?st = "\<lparr>planTrace = tr @ [SplitKeyRanges ranges], planStoreTaskMap = [],
                   needRetry = False\<rparr>"
  assume s: "splitKeyRanges env tr ranges = Inr locs"
    and h: "j < length locs \<and>
          (\<forall>i < j. \<forall>e'. resolvedAt env (firstTrace tr ranges) (map fst locs) i \<noteq> Inl e') \<and>
          resolvedAt env (firstTrace tr ranges) (map fst locs) j = Inl e"
  have "resolveTasks env (copTasksOf tp locs) ?st =
           Inl (Trace e, planTrace ?st @ map GetTiFlashRPCContext (take (Suc j) (map region (copTasksOf tp locs))))"
    using h by (intro resolveTasks_error) (auto simp: firstTrace_def)
  then show "buildBatchCopTasks env (Suc fuel) tr ranges tp =
            Some (Err (Trace e),
              firstTrace tr ranges @ map GetTiFlashRPCContext (take (Suc j) (map fst locs)))"
    using s by (simp add: firstTrace_def)
next
  fix locs
  let ?st = "\<lparr>planTrace = tr @ [SplitKeyRanges ranges], planStoreTaskMap = [],
                   needRetry = False\<rparr>"
  assume s: "splitKeyRanges env tr ranges = Inr locs"
    and h: "(\<forall>i < length locs. \<forall>e. resolvedAt env (firstTrace tr ranges) (map fst locs) i \<noteq> Inl e) \<and>
       (\<exists>i < length locs. resolvedAt env (firstTrace tr ranges) (map fst locs) i = Inr None)"
  have "\<forall>i < length (copTasksOf tp locs). \<forall>e.
          resolvedAt env (planTrace ?st) (map region (copTasksOf tp locs)) i \<noteq> Inl e"
    using h by (simp add: firstTrace_def)
  from resolveTasks_all [OF this] obtain st' where
    r: "resolveTasks env (copTasksOf tp locs) ?st = Inr st'"
       "planTrace st' = planTrace ?st @ map GetTiFlashRPCContext (map region (copTasksOf tp locs))"
       "needRetry st' = (needRetry ?st \<or>
              (\<exists>i < length (copTasksOf tp locs).
                 resolvedAt env (planTrace ?st) (map region (copTasksOf tp locs)) i = Inr None))"
    by blast
  have n: "needRetry st'" using r(3) h by (simp add: firstTrace_def)
  show "buildBatchCopTasks env (Suc fuel) tr ranges tp =
           (case backoff env (firstTrace tr ranges @ map GetTiFlashRPCContext (map fst locs))
                   BoRegionMiss of
              Some e \<Rightarrow>
                Some (Err (Trace e),
                  firstTrace tr ranges @ map GetTiFlashRPCContext (map fst locs)
                    @ [Backoff BoRegionMiss])
            | None \<Rightarrow>
                buildBatchCopTasks env fuel
                  (firstTrace tr ranges @ map GetTiFlashRPCContext (map fst locs)
                     @ [Backoff BoRegionMiss])
                  ranges tp)"
    using s r(1,2) n by (simp add: firstTrace_def split: option.splits)
qed


lemma plan_second_pass:
  "buildBatchCopTasks env1 (Suc 0)
     [SplitKeyRanges [(''a'', ''z'')], GetTiFlashRPCContext region1, Backoff BoRegionMiss]
     [(''a'', ''z'')] 0 =
   Some (Ok [task1],
     [SplitKeyRanges [(''a'', ''z'')], GetTiFlashRPCContext region1, Backoff BoRegionMiss,
      SplitKeyRanges [(''a'', ''z'')], GetTiFlashRPCContext region1])"
  by (simp add: env1_def copTasksOf_def ctx1_def task1_def region1_def balanceBatchCopTask_def
      Let_def)

theorem plan_region_miss_retry_witness:
  "splitKeyRanges env1 [] [(''a'', ''z'')] = Inr [(region1, [(''a'', ''z'')])] \<and>
   resolvedAt env1 (firstTrace [] [(''a'', ''z'')]) [region1] 0 = Inr None \<and>
   buildBatchCopTasks env1 (Suc (Suc 0)) [] [(''a'', ''z'')] 0 =
     Some (Ok [task1],
       [SplitKeyRanges [(''a'', ''z'')], GetTiFlashRPCContext region1, Backoff BoRegionMiss,
        SplitKeyRanges [(''a'', ''z'')], GetTiFlashRPCContext region1])"
proof -
  have a: "splitKeyRanges env1 [] [(''a'', ''z'')] = Inr [(region1, [(''a'', ''z'')])]"
    by (simp add: env1_def)
  have b: "resolvedAt env1 (firstTrace [] [(''a'', ''z'')]) [region1] 0 = Inr None"
    by (simp add: resolvedAt_def firstTrace_def env1_def)
  have c: "backoff env1 tr BoRegionMiss = None" for tr
    by (simp add: env1_def)
  from plan_region_miss_retry [of env1 "[]" "[(''a'', ''z'')]" "Suc 0" 0] a b
  have "buildBatchCopTasks env1 (Suc (Suc 0)) [] [(''a'', ''z'')] 0 =
          buildBatchCopTasks env1 (Suc 0)
            (firstTrace [] [(''a'', ''z'')] @ map GetTiFlashRPCContext [region1]
               @ [Backoff BoRegionMiss]) [(''a'', ''z'')] 0"
    by (simp add: c del: buildBatchCopTasks.simps)
  then show ?thesis using a b plan_second_pass by (simp add: firstTrace_def)
qed

section \<open>The iterator: construction, close and next\<close>

text \<open>
  C8 (order requested). For a request with \<^verbatim>\<open>KeepOrder\<close> or \<^verbatim>\<open>Desc\<close> set, \<^verbatim>\<open>sendBatch\<close>
  returns an error response at once, for any fuel: the world is as it was, so nothing was
  planned and \<^verbatim>\<open>run\<close> was not started; \<^verbatim>\<open>Next\<close> on that response yields the error and no
  result.
\<close>

theorem keep_order_rejected:
  assumes "KeepOrder req \<or> Desc req"
  shows "sendBatch env fuel w req =
           Some (Ok (CopErrorResponse
             (ErrorNew ''batch coprocessor cannot prove keep order or desc property'')), w) \<and>
         copErrorResponse_Next
             (ErrorNew ''batch coprocessor cannot prove keep order or desc property'') w =
           ((None, Some (ErrorNew ''batch coprocessor cannot prove keep order or desc property'')),
            w)"
  using assms by (simp add: sendBatch_def copErrorResponse_Next_def)

theorem keep_order_rejected_witness:
  "(KeepOrder (request1\<lparr>KeepOrder := True\<rparr>) \<or> Desc (request1\<lparr>KeepOrder := True\<rparr>)) \<and>
   sendBatch env1 0 (newIterator []) (request1\<lparr>KeepOrder := True\<rparr>) =
     Some (Ok (CopErrorResponse
       (ErrorNew ''batch coprocessor cannot prove keep order or desc property'')),
       newIterator [])"
proof -
  have a: "KeepOrder (request1\<lparr>KeepOrder := True\<rparr>) \<or> Desc (request1\<lparr>KeepOrder := True\<rparr>)"
    by simp
  from keep_order_rejected [OF a, of env1 0 "newIterator []"] a show ?thesis by simp
qed

lemma quiet_refl [simp]: "quiet tr tr"
  by (simp add: quiet_def)

lemma quiet_trans: "quiet a b \<Longrightarrow> quiet b c \<Longrightarrow> quiet a c"
  by (auto simp: quiet_def)

lemma quiet_append: "CloseFinishCh \<notin> set evs \<Longrightarrow> quiet tr (tr @ evs)"
  by (auto simp: quiet_def)

lemma quiet_append': "quiet a b \<Longrightarrow> CloseFinishCh \<notin> set evs \<Longrightarrow> quiet a (b @ evs)"
  by (auto simp: quiet_def)

lemma worker_refl [simp]: "worker w w"
  by (simp add: worker_def)

lemma worker_trans: "worker a b \<Longrightarrow> worker b c \<Longrightarrow> worker a c"
  unfolding worker_def by (auto intro: quiet_trans)

lemma worker_trace:
  "quiet (trace w) tr' \<Longrightarrow> worker w (w\<lparr>trace := tr'\<rparr>)"
  by (simp add: worker_def)

lemma quiet_resolveTasks:
  "(resolveTasks env ts st = Inr st' \<longrightarrow> quiet (planTrace st) (planTrace st')) \<and>
   (resolveTasks env ts st = Inl (e, tr') \<longrightarrow> quiet (planTrace st) tr')"
proof (induction ts arbitrary: st)
  case Nil
  then show ?case by simp
next
  case (Cons task rest)
  show ?case
  proof (cases "getTiFlashRPCContext env (planTrace st) (region task)")
    case (Inl a)
    then show ?thesis by (auto simp: Let_def intro: quiet_append)
  next
    case (Inr c)
    from resolveTasks_step [OF Inr, of rest] obtain st1 where
      s1: "resolveTasks env (task # rest) st = resolveTasks env rest st1"
          "planTrace st1 = planTrace st @ [GetTiFlashRPCContext (region task)]"
      by blast
    have q: "quiet (planTrace st) (planTrace st1)"
      unfolding s1(2) by (rule quiet_append) simp
    show ?thesis
      unfolding s1(1) using Cons.IH [of st1] q by (auto intro: quiet_trans)
  qed
qed

lemma quiet_buildBatchCopTasks:
  "buildBatchCopTasks env fuel tr ranges tp = Some (r, tr') \<Longrightarrow> quiet tr tr'"
proof (induction fuel arbitrary: tr)
  case 0
  then show ?case by simp
next
  case (Suc fuel)
  show ?case
  proof (cases "splitKeyRanges env tr ranges")
    case (Inl e)
    with Suc.prems show ?thesis by (auto intro: quiet_append)
  next
    case (Inr locs)
    let ?st = "\<lparr>planTrace = tr @ [SplitKeyRanges ranges], planStoreTaskMap = [],
                   needRetry = False\<rparr>"
    have q0: "quiet tr (planTrace ?st)" by (simp add: quiet_append)
    show ?thesis
    proof (cases "resolveTasks env (copTasksOf tp locs) ?st")
      case (Inl a)
      obtain e t where a: "a = (e, t)" by (cases a)
      with Inl have "quiet (planTrace ?st) t" using quiet_resolveTasks by blast
      moreover have "tr' = t" using Suc.prems Inr Inl a by simp
      ultimately show ?thesis using q0 by (auto intro: quiet_trans)
    next
      case (Inr st')
      then have q1: "quiet tr (planTrace st')"
        using quiet_resolveTasks [of env "copTasksOf tp locs" ?st st'] q0
        by (auto intro: quiet_trans)
      show ?thesis
      proof (cases "needRetry st'")
        case True
        show ?thesis
        proof (cases "backoff env (planTrace st') BoRegionMiss")
          case None
          with Suc.prems \<open>splitKeyRanges env tr ranges = Inr locs\<close> Inr True
          have "buildBatchCopTasks env fuel (planTrace st' @ [Backoff BoRegionMiss]) ranges tp
                  = Some (r, tr')" by simp
          from Suc.IH [OF this] have "quiet (planTrace st' @ [Backoff BoRegionMiss]) tr'" .
          moreover have "quiet tr (planTrace st' @ [Backoff BoRegionMiss])"
            using q1 by (rule quiet_append') simp
          ultimately show ?thesis by (rule quiet_trans [rotated])
        next
          case (Some e)
          with Suc.prems \<open>splitKeyRanges env tr ranges = Inr locs\<close> Inr True
          have "tr' = planTrace st' @ [Backoff BoRegionMiss]" by simp
          then show ?thesis using q1 by (auto intro: quiet_append')
        qed
      next
        case False
        with Suc.prems \<open>splitKeyRanges env tr ranges = Inr locs\<close> Inr
        have "tr' = planTrace st'" by (auto split: option.splits sum.splits)
        then show ?thesis using q1 by simp
      qed
    qed
  qed
qed

lemma quiet_SendReqToAddr:
  "SendReqToAddr env tr c regions = Inr (r, tr') \<Longrightarrow> quiet tr tr'"
  by (auto simp: SendReqToAddr_def onSendFailForBatchRegions_def Let_def quiet_def
      split: option.splits sum.splits if_splits prod.splits)

lemma worker_sendToRespCh:
  "goodResp r \<Longrightarrow> worker w (snd (sendToRespCh env w r))"
  by (auto simp: sendToRespCh_def worker_def)

lemma worker_handleBatchCopResponse:
  "worker w (snd (handleBatchCopResponse env w response task))"
  by (auto simp: handleBatchCopResponse_def intro!: worker_sendToRespCh simp: goodResp_def)

lemma worker_reportTaskError: "worker w (reportTaskError env w e)"
  by (auto simp: reportTaskError_def intro!: worker_sendToRespCh simp: goodResp_def)

lemma worker_append:
  "worker w w1 \<Longrightarrow> CloseFinishCh \<notin> set evs \<Longrightarrow> worker w (w1\<lparr>trace := trace w1 @ evs\<rparr>)"
  by (auto simp: worker_def intro: quiet_append')

lemma worker_streamLoop: "worker w (snd (streamLoop env w resp rs fin task))"
proof (induction rs arbitrary: w resp)
  case Nil
  have h: "worker w (snd (handleBatchCopResponse env w resp task))"
    by (rule worker_handleBatchCopResponse)
  show ?case
    using h by (auto simp: Let_def split: prod.splits option.splits intro!: worker_append)
next
  case (Cons r rest)
  have h: "worker w (snd (handleBatchCopResponse env w resp task))"
    by (rule worker_handleBatchCopResponse)
  show ?case
  proof (cases "handleBatchCopResponse env w resp task")
    case (Pair e w1)
    with h have w1: "worker w w1" by simp
    show ?thesis
    proof (cases e)
      case None
      have "worker w (w1\<lparr>trace := trace w1 @ [Recv]\<rparr>)"
        using w1 by (rule worker_append) simp
      from worker_trans [OF this Cons.IH] show ?thesis using Pair None by simp
    next
      case (Some a)
      then show ?thesis using Pair w1 by simp
    qed
  qed
qed

lemma worker_handleStreamed:
  "worker w (snd (handleStreamedBatchCopResponse env w response task))"
proof (cases "firstResponse response")
  case None
  then show ?thesis
    by (auto simp: handleStreamedBatchCopResponse_def intro!: worker_append)
next
  case (Some resp)
  have "worker w (snd (streamLoop env w resp (pending response) (final response) task))"
    by (rule worker_streamLoop)
  then show ?thesis
    using Some by (auto simp: handleStreamedBatchCopResponse_def split: prod.splits
        intro!: worker_append)
qed

lemma worker_handleTaskOnce:
  assumes "handleTaskOnce env fuel req w task = Some (r, w')"
  shows "worker w w'"
proof (cases "SendReqToAddr env (trace w) (ctx task) (regionInfos task)")
  case (Inl p)
  with assms show ?thesis by (simp add: handleTaskOnce_def)
next
  case (Inr a)
  obtain sr tr1 where a: "a = (sr, tr1)" by (cases a)
  have q1: "quiet (trace w) tr1" using quiet_SendReqToAddr Inr a by blast
  show ?thesis
  proof (cases "retry sr")
    case True
    from assms Inr a True obtain br tr2 where
      b: "buildBatchCopTasks env fuel tr1 (concat (map Ranges (regionInfos task))) (StoreType req)
            = Some (br, tr2)" and w': "w' = w\<lparr>trace := tr2\<rparr>"
      by (auto simp: handleTaskOnce_def split: option.splits result.splits)
    have "quiet (trace w) tr2" using q1 quiet_buildBatchCopTasks [OF b] by (rule quiet_trans)
    then show ?thesis unfolding w' by (rule worker_trace)
  next
    case False
    show ?thesis
    proof (cases "sendErr sr")
      case (Some e)
      with assms Inr a False have "w' = w\<lparr>trace := tr1\<rparr>" by (simp add: handleTaskOnce_def)
      then show ?thesis using q1 by (simp add: worker_trace)
    next
      case None
      show ?thesis
      proof (cases "sendResp sr")
        case None
        with assms Inr a False \<open>sendErr sr = None\<close> have "w' = w\<lparr>trace := tr1\<rparr>"
          by (simp add: handleTaskOnce_def)
        then show ?thesis using q1 by (simp add: worker_trace)
      next
        case (Some response)
        let ?w1 = "w\<lparr>trace := tr1\<rparr>"
        obtain e w2 where h: "handleStreamedBatchCopResponse env ?w1 response task = (e, w2)"
          by (cases "handleStreamedBatchCopResponse env ?w1 response task")
        have "worker ?w1 w2" using worker_handleStreamed [of ?w1 env response task] h by simp
        then have "worker ?w1 (w2\<lparr>trace := trace w2 @ (if cancel sr = RPCCancel then [CancelRPC] else [])\<rparr>)"
          by (rule worker_append) simp
        moreover have "worker w ?w1" using q1 by (rule worker_trace)
        moreover have "w' = w2\<lparr>trace := trace w2 @ (if cancel sr = RPCCancel then [CancelRPC] else [])\<rparr>"
          using assms Inr a False \<open>sendErr sr = None\<close> Some h by (simp add: handleTaskOnce_def)
        ultimately show ?thesis by (auto intro: worker_trans)
      qed
    qed
  qed
qed

lemma worker_handleTaskLoop:
  "handleTaskLoop env fuel req w ts = Some (Inr w') \<Longrightarrow> worker w w'"
proof (induction env fuel req w ts rule: handleTaskLoop.induct)
  case (1 env fuel req w)
  then show ?case by simp
next
  case (2 env req w task rest)
  then show ?case by simp
next
  case (3 env fuel req w task rest)
  from "3.prems" obtain r w1 where
    h: "handleTaskOnce env fuel req w task = Some (r, w1)"
    by (auto split: option.splits)
  have w1: "worker w w1" using worker_handleTaskOnce [OF h] .
  show ?case
  proof (cases r)
    case (Inl p)
    with "3.prems" h show ?thesis by simp
  next
    case (Inr a)
    obtain ret e where a: "a = (ret, e)" by (cases a)
    show ?thesis
    proof (cases e)
      case None
      with "3.prems" h Inr a have l: "handleTaskLoop env fuel req w1 (rest @ ret) = Some (Inr w')"
        by simp
      have "worker w1 w'" using "3.IH" [OF h refl Inr a [symmetric] None l] .
      with w1 show ?thesis by (rule worker_trans)
    next
      case (Some x)
      with "3.prems" h Inr a have "w' = reportTaskError env w1 x" by simp
      then show ?thesis using w1 worker_reportTaskError [of w1 env x] by (auto intro: worker_trans)
    qed
  qed
qed

lemma closesSince_quiet:
  assumes "take (length tr) t = tr" and "quiet t t'"
  shows "take (length tr) t' = tr \<and>
         count_list (drop (length tr) t') CloseFinishCh = count_list (drop (length tr) t) CloseFinishCh"
proof -
  from assms(2) obtain evs where e: "t' = t @ evs" "CloseFinishCh \<notin> set evs"
    by (auto simp: quiet_def)
  have l: "length tr \<le> length t" using assms(1) by (metis length_take min.cobounded1)
  have "count_list evs CloseFinishCh = 0" using e(2) by (simp add: count_list_0_iff)
  then show ?thesis using e(1) l assms(1) by simp
qed

lemma iterInv_worker: "iterInv tr w \<Longrightarrow> worker w w' \<Longrightarrow> iterInv tr w'"
  unfolding iterInv_def worker_def closesSince_def
  using closesSince_quiet [of tr "trace w" "trace w'"] by auto

lemma iterInv_newIterator: "iterInv tr (newIterator tr)"
  by (simp add: iterInv_def newIterator_def closesSince_def)

lemma iterInv_append:
  "iterInv tr w \<Longrightarrow> CloseFinishCh \<notin> set evs \<Longrightarrow> iterInv tr (w\<lparr>trace := trace w @ evs\<rparr>)"
  by (rule iterInv_worker [where w = w]) (auto intro: worker_append)

lemma iterInv_closeFinishCh:
  assumes "iterInv tr w" and "closed w = 0"
  shows "iterInv tr (w\<lparr>closed := 1, finishChClosed := True, trace := trace w @ [CloseFinishCh]\<rparr>)"
proof -
  have f: "\<not> finishChClosed w" using assms by (simp add: iterInv_def)
  have t: "take (length tr) (trace w) = tr" using assms(1) by (simp add: iterInv_def)
  have l: "length tr \<le> length (trace w)" using t by (metis length_take min.cobounded1)
  have c0: "count_list (drop (length tr) (trace w)) CloseFinishCh = 0"
    using assms(1) f by (simp add: iterInv_def closesSince_def)
  have "drop (length tr) (trace w @ [CloseFinishCh]) = drop (length tr) (trace w) @ [CloseFinishCh]"
    using l by simp
  then have c1: "count_list (drop (length tr) (trace w @ [CloseFinishCh])) CloseFinishCh = 1"
    using c0 by simp
  have t1: "take (length tr) (trace w @ [CloseFinishCh]) = tr" using t l by simp
  show ?thesis
    using assms(1) c1 t1 by (simp add: iterInv_def closesSince_def)
qed

lemma Close_iterInv:
  assumes "iterInv tr w"
  shows "\<exists>w'. Close w = Inr (None, w') \<and> iterInv tr w' \<and> finishChClosed w' \<and>
           closesSince tr w' = 1"
proof (cases "closed w = 0")
  case True
  then have f: "\<not> finishChClosed w" using assms by (simp add: iterInv_def)
  let ?w1 = "w\<lparr>closed := 1, finishChClosed := True, trace := trace w @ [CloseFinishCh]\<rparr>"
  let ?w' = "?w1\<lparr>trace := trace ?w1 @ [CancelAll, WaitGroupWait]\<rparr>"
  have c: "Close w = Inr (None, ?w')"
    using True f by (simp add: Close_def casClosed_def closeFinishCh_def)
  have "iterInv tr ?w1" using iterInv_closeFinishCh [OF assms True] .
  then have i: "iterInv tr ?w'" by (rule iterInv_append) simp
  have "finishChClosed ?w'" by simp
  then have "closesSince tr ?w' = 1" using i unfolding iterInv_def by presburger
  then show ?thesis using c i by auto
next
  case False
  then have f: "finishChClosed w" using assms by (simp add: iterInv_def)
  let ?w' = "w\<lparr>trace := trace w @ [CancelAll, WaitGroupWait]\<rparr>"
  have c: "Close w = Inr (None, ?w')"
    using False by (simp add: Close_def casClosed_def)
  have i: "iterInv tr ?w'" using assms by (rule iterInv_append) simp
  have "finishChClosed ?w'" using f by simp
  then have "closesSince tr ?w' = 1" using i unfolding iterInv_def by presburger
  then show ?thesis using c i f by auto
qed

lemma recv_iterInv:
  assumes "iterInv tr w" and "recvFromRespCh env cs w = Some x"
  shows "case x of
           Inl p \<Rightarrow> False
         | Inr ((resp, ok, exit), w') \<Rightarrow>
             iterInv tr w' \<and>
             (ok \<and> \<not> exit \<longrightarrow> (case resp of None \<Rightarrow> False | Some r \<Rightarrow> goodResp r))"
  using assms
proof (induction cs arbitrary: w)
  case Nil
  then show ?case by simp
next
  case (Cons c cs)
  show ?case
  proof (cases c)
    case RespChan
    show ?thesis
    proof (cases "respChan w")
      case Nil
      with Cons.prems RespChan show ?thesis by (auto split: if_splits)
    next
      case (Cons r rest)
      with Cons.prems RespChan have x: "x = Inr ((Some r, True, False), w\<lparr>respChan := rest\<rparr>)"
        by simp
      have "iterInv tr (w\<lparr>respChan := rest\<rparr>)" "goodResp r"
        using Cons.prems(1) Cons by (auto simp: iterInv_def closesSince_def)
      then show ?thesis using x by simp
    qed
  next
    case Ticker
    show ?thesis
    proof (cases "Killed env (trace w) = 1")
      case True
      with Cons.prems Ticker show ?thesis by (auto simp: goodResp_def)
    next
      case False
      with Cons.prems Ticker have "recvFromRespCh env cs w = Some x" by simp
      from Cons.IH [OF Cons.prems(1) this] show ?thesis .
    qed
  next
    case FinishCh
    with Cons.prems show ?thesis by (auto split: if_splits)
  next
    case CtxDone
    show ?thesis
    proof (cases "closed w = 0")
      case True
      then have f: "\<not> finishChClosed w" using Cons.prems(1) by (simp add: iterInv_def)
      let ?w' = "w\<lparr>closed := 1, finishChClosed := True, trace := trace w @ [CloseFinishCh]\<rparr>"
      have x: "x = Inr ((None, False, True), ?w')"
        using Cons.prems(2) CtxDone True f by (simp add: casClosed_def closeFinishCh_def)
      have "iterInv tr ?w'" using iterInv_closeFinishCh [OF Cons.prems(1) True] .
      then show ?thesis using x by simp
    next
      case False
      with Cons.prems CtxDone show ?thesis by (auto simp: casClosed_def)
    qed
  qed
qed

lemma Next_iterInv:
  assumes "iterInv tr w" and "Next env req cs w = Some x"
  shows "\<exists>r e w'. x = Inr ((r, e), w') \<and> iterInv tr w' \<and>
           (\<forall>rs. r = Some rs \<longrightarrow> pbResp rs \<noteq> None \<and> err rs = None \<and> e = None)"
proof -
  from assms(2) obtain y where y: "recvFromRespCh env cs w = Some y"
    by (auto simp: Next_def split: option.splits)
  from recv_iterInv [OF assms(1) y] obtain resp ok exit w1 where
    r: "y = Inr ((resp, ok, exit), w1)" "iterInv tr w1"
       "ok \<and> \<not> exit \<longrightarrow> (\<exists>r. resp = Some r \<and> goodResp r)"
    by (cases y) (auto split: prod.splits option.splits)
  show ?thesis
  proof (cases "\<not> ok \<or> exit")
    case True
    with assms(2) y r show ?thesis by (auto simp: Next_def)
  next
    case False
    with r(3) obtain rs where rs: "resp = Some rs" "goodResp rs" by auto
    let ?w2 = "w1\<lparr>trace := trace w1 @ [CheckVisibility (StartTs req)]\<rparr>"
    have i2: "iterInv tr ?w2" using r(2) by (rule iterInv_append) simp
    show ?thesis
    proof (cases "err rs")
      case None
      then have "pbResp rs \<noteq> None" using rs(2) by (simp add: goodResp_def)
      then show ?thesis
        using assms(2) y r(1,2) False rs None i2
        by (auto simp: Next_def Let_def split: option.splits)
    next
      case (Some e)
      then show ?thesis
        using assms(2) y r(1,2) False rs by (auto simp: Next_def)
    qed
  qed
qed

lemma step_iterInv: "iterInv tr w \<Longrightarrow> step env op w = Some w' \<Longrightarrow> iterInv tr w'"
proof (cases op)
  case (WorkerResponse response task)
  assume "iterInv tr w" "step env op w = Some w'"
  then show ?thesis
    using WorkerResponse worker_handleBatchCopResponse [of w env response task]
    by (auto intro: iterInv_worker)
next
  case (WorkerError e)
  assume "iterInv tr w" "step env op w = Some w'"
  then show ?thesis
    using WorkerError worker_reportTaskError [of w env e] by (auto intro: iterInv_worker)
next
  case (WorkerTask fuel req task)
  assume a: "iterInv tr w" "step env op w = Some w'"
  then have "handleTaskLoop env fuel req w [task] = Some (Inr w')"
    using WorkerTask by (auto simp: handleTask_def split: option.splits sum.splits)
  from worker_handleTaskLoop [OF this] a(1) show ?thesis by (auto intro: iterInv_worker)
next
  case RunDone
  assume "iterInv tr w" "step env op w = Some w'"
  then show ?thesis using RunDone by (auto simp: iterInv_def closesSince_def)
next
  case (CallNext req cs)
  assume a: "iterInv tr w" "step env op w = Some w'"
  then obtain x where x: "Next env req cs w = Some x"
    using CallNext by (auto split: option.splits)
  from Next_iterInv [OF a(1) x] a(2) x CallNext show ?thesis by auto
next
  case CallClose
  assume a: "iterInv tr w" "step env op w = Some w'"
  from Close_iterInv [OF a(1)] a(2) CallClose show ?thesis by auto
qed

lemma exec_iterInv: "iterInv tr w \<Longrightarrow> exec env ops w = Some w' \<Longrightarrow> iterInv tr w'"
proof (induction ops arbitrary: w)
  case Nil
  then show ?case by simp
next
  case (Cons op ops)
  then show ?case by (auto split: option.splits dest: step_iterInv)
qed

text \<open>
  C9 (close twice). In every state an iterator can reach, by any sequence of sends of its
  workers, calls of \<^verbatim>\<open>Next\<close> and calls of \<^verbatim>\<open>Close\<close>, the finish signal has been closed
  at most once; \<^verbatim>\<open>Close\<close> there does not panic and returns nil, and so does a second
  \<^verbatim>\<open>Close\<close> right after it, and the finish signal has then been closed exactly once.
\<close>

theorem close_twice:
  assumes "exec env ops (newIterator tr) = Some w"
  shows "closesSince tr w \<le> 1 \<and>
         (\<exists>w1 w2. Close w = Inr (None, w1) \<and> Close w1 = Inr (None, w2) \<and>
                  closesSince tr w1 = 1 \<and> closesSince tr w2 = 1)"
proof -
  have i: "iterInv tr w" using exec_iterInv [OF iterInv_newIterator assms] .
  from Close_iterInv [OF i] obtain w1 where
    w1: "Close w = Inr (None, w1)" "iterInv tr w1" "closesSince tr w1 = 1" by blast
  from Close_iterInv [OF w1(2)] obtain w2 where
    w2: "Close w1 = Inr (None, w2)" "closesSince tr w2 = 1" by blast
  have "closesSince tr w \<le> 1" using i by (simp add: iterInv_def)
  then show ?thesis using w1 w2 by blast
qed

theorem close_twice_witness:
  "exec env1 [CallNext request1 [CtxDone]] (newIterator []) =
     Some \<lparr>trace = [GoRun, CloseFinishCh], respChan = [], respChanClosed = False,
           finishChClosed = True, closed = 1\<rparr> \<and>
   closesSince [] \<lparr>trace = [GoRun, CloseFinishCh], respChan = [], respChanClosed = False,
           finishChClosed = True, closed = 1\<rparr> \<le> 1 \<and>
   (\<exists>w1 w2. Close \<lparr>trace = [GoRun, CloseFinishCh], respChan = [], respChanClosed = False,
           finishChClosed = True, closed = 1\<rparr> = Inr (None, w1) \<and>
      Close w1 = Inr (None, w2) \<and> closesSince [] w1 = 1 \<and> closesSince [] w2 = 1)"
proof -
  have a: "exec env1 [CallNext request1 [CtxDone]] (newIterator []) =
     Some \<lparr>trace = [GoRun, CloseFinishCh], respChan = [], respChanClosed = False,
           finishChClosed = True, closed = 1\<rparr>"
    by (simp add: Next_def casClosed_def closeFinishCh_def newIterator_def)
  from close_twice [OF a] a show ?thesis by simp
qed

lemma exec_append:
  "exec env (xs @ ys) w = (case exec env xs w of None \<Rightarrow> None | Some w' \<Rightarrow> exec env ys w')"
  by (induction xs arbitrary: w) (auto split: option.splits)

text \<open>
  C10 (a result has a payload). In every state an iterator can reach, by any sequence of
  sends of its workers, calls of \<^verbatim>\<open>Next\<close> and calls of \<^verbatim>\<open>Close\<close>:

  \<^item> a result subset that \<^verbatim>\<open>Next\<close> returns has a payload (\<^verbatim>\<open>pbResp\<close> is not nil, so
    \<^verbatim>\<open>GetData\<close> does not panic) and no error, and \<^verbatim>\<open>Next\<close> returns it with a nil error;

  \<^item> a response with an error that \<^verbatim>\<open>Next\<close> receives, such as the one \<^verbatim>\<open>handleTask\<close>
    sends for a failed task, is returned as the Go error \<^verbatim>\<open>errors.Trace(resp.err)\<close> with
    a nil result subset;

  \<^item> \<^verbatim>\<open>Next\<close> does not panic.
\<close>

theorem next_result_has_payload:
  assumes "exec env ops (newIterator tr) = Some w"
  shows "(Next env req cs w = Some (Inr ((Some rs, e), w')) \<longrightarrow>
            pbResp rs \<noteq> None \<and> err rs = None \<and> e = None \<and> (\<exists>d. GetData rs = Inr d)) \<and>
         (recvFromRespCh env cs2 w = Some (Inr ((Some r, True, False), w1)) \<and> err r = Some e2 \<longrightarrow>
            Next env req2 cs2 w = Some (Inr ((None, Some (Trace e2)), w1))) \<and>
         Next env req3 cs3 w \<noteq> Some (Inl p)"
proof (intro conjI impI)
  have i: "iterInv tr w" using exec_iterInv [OF iterInv_newIterator assms] .
  {
    assume "Next env req cs w = Some (Inr ((Some rs, e), w'))"
    from Next_iterInv [OF i this] have "pbResp rs \<noteq> None \<and> err rs = None \<and> e = None"
      by auto
    then show "pbResp rs \<noteq> None" "err rs = None" "e = None" "\<exists>d. GetData rs = Inr d"
      by (auto simp: GetData_def)
  }
  {
    assume "recvFromRespCh env cs2 w = Some (Inr ((Some r, True, False), w1)) \<and> err r = Some e2"
    then show "Next env req2 cs2 w = Some (Inr ((None, Some (Trace e2)), w1))"
      by (simp add: Next_def)
  }
  show "Next env req3 cs3 w \<noteq> Some (Inl p)"
  proof
    assume "Next env req3 cs3 w = Some (Inl p)"
    from Next_iterInv [OF i this] show False by auto
  qed
qed

theorem next_result_has_payload_witness:
  "exec envCanceled
     [WorkerResponse \<lparr>Data = ''X'', OtherError = []\<rparr> task1, WorkerTask (Suc 0) request1 task1]
     (newIterator []) = Some (worldFailed [respPayload, respFailed] []) \<and>
   Next envCanceled request1 [RespChan] (worldFailed [respPayload, respFailed] []) =
     Some (Inr ((Some respPayload, None), worldFailed [respFailed] [CheckVisibility 7])) \<and>
   pbResp respPayload \<noteq> None \<and> GetData respPayload = Inr ''X'' \<and>
   exec envCanceled
     [WorkerResponse \<lparr>Data = ''X'', OtherError = []\<rparr> task1, WorkerTask (Suc 0) request1 task1,
      CallNext request1 [RespChan]]
     (newIterator []) = Some (worldFailed [respFailed] [CheckVisibility 7]) \<and>
   recvFromRespCh envCanceled [RespChan] (worldFailed [respFailed] [CheckVisibility 7]) =
     Some (Inr ((Some respFailed, True, False), worldFailed [] [CheckVisibility 7])) \<and>
   pbResp respFailed = None \<and>
   err respFailed = Some (Trace (Trace (Trace (Trace ContextCanceled)))) \<and>
   Next envCanceled request1 [RespChan] (worldFailed [respFailed] [CheckVisibility 7]) =
     Some (Inr ((None, Some (Trace (Trace (Trace (Trace (Trace ContextCanceled)))))),
                worldFailed [] [CheckVisibility 7]))"
proof -
  have a: "exec envCanceled
     [WorkerResponse \<lparr>Data = ''X'', OtherError = []\<rparr> task1, WorkerTask (Suc 0) request1 task1]
     (newIterator []) = Some (worldFailed [respPayload, respFailed] [])"
    by (simp add: handleBatchCopResponse_def sendToRespCh_def newIterator_def task1_def
        handleTask_def handleTaskOnce_def SendReqToAddr_def onSendFailForBatchRegions_def
        reportTaskError_def envCanceled_def env1_def ctx1_def worldFailed_def respPayload_def
        respFailed_def)
  have b: "Next envCanceled request1 [RespChan] (worldFailed [respPayload, respFailed] []) =
     Some (Inr ((Some respPayload, None), worldFailed [respFailed] [CheckVisibility 7]))"
    by (simp add: Next_def envCanceled_def env1_def request1_def worldFailed_def respPayload_def)
  have c: "exec envCanceled
     [WorkerResponse \<lparr>Data = ''X'', OtherError = []\<rparr> task1, WorkerTask (Suc 0) request1 task1,
      CallNext request1 [RespChan]]
     (newIterator []) = Some (worldFailed [respFailed] [CheckVisibility 7])"
  proof -
    have "exec envCanceled
       ([WorkerResponse \<lparr>Data = ''X'', OtherError = []\<rparr> task1,
         WorkerTask (Suc 0) request1 task1] @ [CallNext request1 [RespChan]])
       (newIterator []) = Some (worldFailed [respFailed] [CheckVisibility 7])"
      unfolding exec_append a using b by simp
    then show ?thesis by simp
  qed
  have d: "recvFromRespCh envCanceled [RespChan] (worldFailed [respFailed] [CheckVisibility 7]) =
     Some (Inr ((Some respFailed, True, False), worldFailed [] [CheckVisibility 7]))"
    by (simp add: worldFailed_def)
  have f: "err respFailed = Some (Trace (Trace (Trace (Trace ContextCanceled))))"
          "pbResp respFailed = None"
    by (simp_all add: respFailed_def)
  from next_result_has_payload [OF a, where req = request1 and cs = "[RespChan]"
      and rs = respPayload and e = None and w' = "worldFailed [respFailed] [CheckVisibility 7]"] b
  have g: "pbResp respPayload \<noteq> None \<and> (\<exists>d. GetData respPayload = Inr d)" by blast
  then have h: "GetData respPayload = Inr ''X''" by (auto simp: GetData_def respPayload_def)
  from next_result_has_payload [OF c, where ?cs2.0 = "[RespChan]" and r = respFailed
      and ?w1.0 = "worldFailed [] [CheckVisibility 7]" and ?req2.0 = request1
      and ?e2.0 = "Trace (Trace (Trace (Trace ContextCanceled)))"] d f(1)
  have n: "Next envCanceled request1 [RespChan] (worldFailed [respFailed] [CheckVisibility 7]) =
     Some (Inr ((None, Some (Trace (Trace (Trace (Trace (Trace ContextCanceled)))))),
                worldFailed [] [CheckVisibility 7]))"
    by blast
  from a b g h c d f n show ?thesis by blast
qed

end
